theory Spec2Isabelle
  imports Main "HOL-Library.Word"
begin

section \<open>The LRU engine (package lru)\<close>

text \<open>
  The engine keeps a doubly linked list \<open>ll\<close> of entries, front first, and a hash map
  \<open>cache\<close> from a key to the list element that holds it. An element is identified with
  the entry \<open>(key, value)\<close> it points to; the list element and the map slot share that
  entry in the source, so an assignment to \<open>kv.value\<close> is written out on both.

  A cached value is any type with a method \<open>Len() int\<close>, the memory it occupies; the model
  takes the method as the parameter \<open>vlen\<close>. Byte counts are mathematical integers: the
  \<open>int64\<close> arithmetic of the source agrees with them as long as the total stays below
  \<open>2^63\<close>.

  The eviction callback is a closure with effects outside the engine. The model threads
  an outside world \<open>'w\<close> through the calls; since a closure can also read the engine it
  is registered on, the callback is handed what it would read there at the moment it is
  called: \<open>nbytes\<close> and the entries in recency order.
\<close>

type_synonym 'v entry = "string \<times> 'v"

type_synonym 'v view = "int \<times> 'v entry list"

type_synonym ('v, 'w) callback = "string \<Rightarrow> 'v \<Rightarrow> 'v view \<Rightarrow> 'w \<Rightarrow> 'w"

record ('v, 'w) Cache =
  maxBytes :: int
  nbytes :: int
  ll :: "'v entry list"
  cache :: "string \<rightharpoonup> 'v entry"
  OnEvicted :: "('v, 'w) callback option"

definition lru_New :: "int \<Rightarrow> ('v, 'w) callback option \<Rightarrow> ('v, 'w) Cache" where
  "lru_New maxB onEvicted =
     \<lparr>maxBytes = maxB, nbytes = 0, ll = [], cache = Map.empty, OnEvicted = onEvicted\<rparr>"

text \<open>\<open>list.MoveToFront(e)\<close> does nothing when \<open>e\<close> is not an element of the list.\<close>

definition MoveToFront :: "'a \<Rightarrow> 'a list \<Rightarrow> 'a list" where
  "MoveToFront e xs = (if e \<in> set xs then e # remove1 e xs else xs)"

definition view_of :: "('v, 'w) Cache \<Rightarrow> 'v view" where
  "view_of c = (nbytes c, ll c)"

text \<open>
  \<open>RemoveOldest\<close>: \<open>ll.Back()\<close> is nil on an empty list, and then nothing happens.
  Otherwise the statements run in the source's order: the element leaves the list, its key
  leaves the map, \<open>nbytes\<close> is decreased, and last the callback is called.
\<close>

definition lru_RemoveOldest ::
  "('v \<Rightarrow> nat) \<Rightarrow> ('v, 'w) Cache \<times> 'w \<Rightarrow> ('v, 'w) Cache \<times> 'w" where
  "lru_RemoveOldest vlen cw =
     (case cw of (c, w) \<Rightarrow>
        if ll c = [] then (c, w)
        else
          let kv = last (ll c);
              c1 = c\<lparr>ll := butlast (ll c)\<rparr>;
              c2 = c1\<lparr>cache := (cache c1)(fst kv := None)\<rparr>;
              c3 = c2\<lparr>nbytes := nbytes c2 - (int (length (fst kv)) + int (vlen (snd kv)))\<rparr>
          in (case OnEvicted c3 of
                None \<Rightarrow> (c3, w)
              | Some f \<Rightarrow> (c3, f (fst kv) (snd kv) (view_of c3) w)))"

text \<open>
  The loop at the end of \<open>Add\<close>. It need not end (a negative \<open>maxBytes\<close> is below every
  \<open>nbytes\<close>, and \<open>RemoveOldest\<close> on an empty list changes nothing), so not returning is
  the value \<open>None\<close>.
\<close>

partial_function (option) evict ::
  "('v \<Rightarrow> nat) \<Rightarrow> ('v, 'w) Cache \<times> 'w \<Rightarrow> (('v, 'w) Cache \<times> 'w) option" where
  "evict vlen cw =
     (if maxBytes (fst cw) \<noteq> 0 \<and> maxBytes (fst cw) < nbytes (fst cw)
      then evict vlen (lru_RemoveOldest vlen cw)
      else Some cw)"

definition lru_Add ::
  "('v \<Rightarrow> nat) \<Rightarrow> string \<Rightarrow> 'v \<Rightarrow> ('v, 'w) Cache \<times> 'w \<Rightarrow> (('v, 'w) Cache \<times> 'w) option" where
  "lru_Add vlen k v cw =
     (case cw of (c, w) \<Rightarrow>
        evict vlen
          (case cache c k of
             Some ele \<Rightarrow>
               let c1 = c\<lparr>ll := MoveToFront ele (ll c)\<rparr>;
                   c2 = c1\<lparr>nbytes := nbytes c1 + (int (vlen v) - int (vlen (snd ele)))\<rparr>;
                   kv = (fst ele, v)
               in c2\<lparr>ll := map (\<lambda>e. if e = ele then kv else e) (ll c2),
                     cache := (cache c2)(k \<mapsto> kv)\<rparr>
           | None \<Rightarrow>
               let c1 = c\<lparr>ll := (k, v) # ll c\<rparr>;
                   c2 = c1\<lparr>cache := (cache c1)(k \<mapsto> (k, v))\<rparr>
               in c2\<lparr>nbytes := nbytes c2 + (int (length k) + int (vlen v))\<rparr>,
           w))"

definition lru_Get :: "string \<Rightarrow> ('v, 'w) Cache \<Rightarrow> 'v option \<times> ('v, 'w) Cache" where
  "lru_Get k c =
     (case cache c k of
        Some ele \<Rightarrow> (Some (snd ele), c\<lparr>ll := MoveToFront ele (ll c)\<rparr>)
      | None \<Rightarrow> (None, c))"






subsection \<open>Representation invariant\<close>

text \<open>
  \<open>entry_size\<close> is what one entry contributes to \<open>nbytes\<close>; \<open>over_limit\<close> is the guard of
  the eviction loop. \<open>lru_inv\<close> says that keys are unique in the list, that the map holds
  exactly the elements of the list under their keys, and that \<open>nbytes\<close> is the total size.
\<close>

definition entry_size :: "('v \<Rightarrow> nat) \<Rightarrow> 'v entry \<Rightarrow> int" where
  "entry_size vlen e = int (length (fst e)) + int (vlen (snd e))"

definition lru_inv :: "('v \<Rightarrow> nat) \<Rightarrow> ('v, 'w) Cache \<Rightarrow> bool" where
  "lru_inv vlen c \<longleftrightarrow>
     distinct (map fst (ll c)) \<and>
     (\<forall>k e. cache c k = Some e \<longleftrightarrow> e \<in> set (ll c) \<and> fst e = k) \<and>
     nbytes c = (\<Sum>e\<leftarrow>ll c. entry_size vlen e)"

definition over_limit :: "('v, 'w) Cache \<Rightarrow> bool" where
  "over_limit c \<longleftrightarrow> maxBytes c \<noteq> 0 \<and> maxBytes c < nbytes c"


section \<open>The consistent-hash ring (package consistenthash)\<close>

text \<open>
  A \<open>Hash\<close> maps bytes to a \<open>uint32\<close>. The ring keeps the virtual-node hashes as Go
  \<open>int\<close>s (64 bits, so the conversion from \<open>uint32\<close> is the unsigned value) in the
  slice \<open>keys\<close>, and \<open>hashMap\<close> from a virtual-node hash to the name of its real node.
\<close>

type_synonym Hash = "string \<Rightarrow> 32 word"

record consistenthash_Map =
  hash :: Hash
  replicas :: int
  keys :: "int list"
  hashMap :: "int \<rightharpoonup> string"

text \<open>
  \<open>New\<close> falls back on \<open>crc32.ChecksumIEEE\<close> when no hash function is given. That
  function belongs to the Go library; it is the parameter \<open>ChecksumIEEE\<close> here.
\<close>

definition ch_New :: "Hash \<Rightarrow> int \<Rightarrow> Hash option \<Rightarrow> consistenthash_Map" where
  "ch_New ChecksumIEEE r fn =
     \<lparr>hash = (case fn of None \<Rightarrow> ChecksumIEEE | Some f \<Rightarrow> f),
      replicas = r, keys = [], hashMap = Map.empty\<rparr>"

text \<open>\<open>strconv.Itoa\<close>: decimal digits without leading zeros, a minus sign when negative.\<close>

function Itoa_nat :: "nat \<Rightarrow> string" where
  "Itoa_nat n =
     (if n < 10 then [''0123456789'' ! n]
      else Itoa_nat (n div 10) @ [''0123456789'' ! (n mod 10)])"
  by pat_completeness auto
termination
  by (relation "measure id") auto

definition Itoa :: "int \<Rightarrow> string" where
  "Itoa i = (if i < 0 then CHR ''-'' # Itoa_nat (nat (- i)) else Itoa_nat (nat i))"

text \<open>
  \<open>Add\<close>: the body of the inner loop is \<open>add_replica\<close>, the body of the outer loop is
  \<open>add_node\<close> (\<open>i\<close> runs from 0 while \<open>i < replicas\<close>), and \<open>sort.Ints\<close> orders the
  slice once at the end.
\<close>

definition add_replica :: "string \<Rightarrow> consistenthash_Map \<Rightarrow> int \<Rightarrow> consistenthash_Map" where
  "add_replica node m i =
     (let h = uint (hash m (Itoa i @ node))
      in m\<lparr>keys := keys m @ [h], hashMap := (hashMap m)(h \<mapsto> node)\<rparr>)"

definition add_node :: "consistenthash_Map \<Rightarrow> string \<Rightarrow> consistenthash_Map" where
  "add_node m node = foldl (add_replica node) m [0..replicas m - 1]"

definition ch_Add :: "consistenthash_Map \<Rightarrow> string list \<Rightarrow> consistenthash_Map" where
  "ch_Add m nodes = (let m' = foldl add_node m nodes in m'\<lparr>keys := sort (keys m')\<rparr>)"

text \<open>
  \<open>sort.Search(n, f)\<close> is the binary search of the Go library: the loop keeps
  \<open>i \<le> j\<close>, probes the midpoint \<open>h\<close> and ends with \<open>i = j\<close>.
\<close>

function search_loop :: "(nat \<Rightarrow> bool) \<Rightarrow> nat \<Rightarrow> nat \<Rightarrow> nat" where
  "search_loop f i j =
     (if i < j
      then (let h = (i + j) div 2
            in if \<not> f h then search_loop f (h + 1) j else search_loop f i h)
      else i)"
  by pat_completeness auto
termination
  by (relation "measure (\<lambda>(f, i, j). j - i)") auto

definition Search :: "nat \<Rightarrow> (nat \<Rightarrow> bool) \<Rightarrow> nat" where
  "Search n f = search_loop f 0 n"

text \<open>
  \<open>Get\<close>. A lookup of a missing key in a Go map yields the zero value, the empty
  string.
\<close>

definition ch_Get :: "consistenthash_Map \<Rightarrow> string \<Rightarrow> string" where
  "ch_Get m k =
     (if length (keys m) = 0 then ''''
      else
        let h = uint (hash m k);
            idx = Search (length (keys m)) (\<lambda>i. keys m ! i \<ge> h);
            realIdx = idx mod length (keys m)
        in (case hashMap m (keys m ! realIdx) of None \<Rightarrow> '''' | Some node \<Rightarrow> node))"

text \<open>A ring as a program builds it: \<open>New\<close>, then any number of \<open>Add\<close> calls.\<close>

definition ch_build :: "Hash \<Rightarrow> int \<Rightarrow> Hash option \<Rightarrow> string list list \<Rightarrow> consistenthash_Map" where
  "ch_build ChecksumIEEE r fn adds = foldl ch_Add (ch_New ChecksumIEEE r fn) adds"

text \<open>
  The hash function of the package's test: \<open>strconv.Atoi\<close> of the bytes, the error
  dropped, converted to \<open>uint32\<close>. \<open>Atoi\<close> accepts an optional sign and decimal digits;
  it yields 0 on a syntax error and the nearest \<open>int64\<close> when out of range.
\<close>

definition digit_of :: "char \<Rightarrow> nat option" where
  "digit_of ch =
     (let n = (of_char ch :: nat) in if 48 \<le> n \<and> n \<le> 57 then Some (n - 48) else None)"

fun parse_digits :: "nat \<Rightarrow> string \<Rightarrow> nat option" where
  "parse_digits n [] = Some n"
| "parse_digits n (ch # s) =
     (case digit_of ch of None \<Rightarrow> None | Some d \<Rightarrow> parse_digits (n * 10 + d) s)"

definition Atoi :: "string \<Rightarrow> int" where
  "Atoi s =
     (case s of
        [] \<Rightarrow> 0
      | c # cs \<Rightarrow>
          let body = (if c = CHR ''-'' \<or> c = CHR ''+'' then cs else s)
          in if body = [] then 0
             else (case parse_digits 0 body of
                     None \<Rightarrow> 0
                   | Some n \<Rightarrow>
                       let v = (if c = CHR ''-'' then - int n else int n)
                       in max (- (2 ^ 63)) (min (2 ^ 63 - 1) v)))"

definition test_hash :: Hash where
  "test_hash data = word_of_int (Atoi data)"

subsection \<open>Virtual nodes\<close>

text \<open>
  \<open>vnode h i node\<close> is the hash of the \<open>i\<close>-th virtual node of \<open>node\<close>, and \<open>vnodes h r S\<close>
  the hashes of all virtual nodes of the nodes in \<open>S\<close>. \<open>ring_of h r S m\<close> describes a
  ring that holds exactly the nodes \<open>S\<close>; \<open>succ_key K x\<close> is the first element of \<open>K\<close>
  at or after \<open>x\<close> on the circle.
\<close>

definition vnode :: "Hash \<Rightarrow> int \<Rightarrow> string \<Rightarrow> int" where
  "vnode h i node = uint (h (Itoa i @ node))"

definition vnodes :: "Hash \<Rightarrow> int \<Rightarrow> string set \<Rightarrow> int set" where
  "vnodes h r S = {vnode h i node | i node. 0 \<le> i \<and> i < r \<and> node \<in> S}"

definition ring_of :: "Hash \<Rightarrow> int \<Rightarrow> string set \<Rightarrow> consistenthash_Map \<Rightarrow> bool" where
  "ring_of h r S m \<longleftrightarrow>
     hash m = h \<and> replicas m = r \<and> sorted (keys m) \<and>
     set (keys m) = vnodes h r S \<and> dom (hashMap m) = vnodes h r S \<and>
     (\<forall>k node. hashMap m k = Some node \<longrightarrow>
        node \<in> S \<and> (\<exists>i. 0 \<le> i \<and> i < r \<and> k = vnode h i node))"

text \<open>The same before \<open>sort.Ints\<close> has run, inside \<open>Add\<close>.\<close>

definition ring_unsorted :: "Hash \<Rightarrow> int \<Rightarrow> string set \<Rightarrow> consistenthash_Map \<Rightarrow> bool" where
  "ring_unsorted h r S m \<longleftrightarrow>
     hash m = h \<and> replicas m = r \<and>
     set (keys m) = vnodes h r S \<and> dom (hashMap m) = vnodes h r S \<and>
     (\<forall>k node. hashMap m k = Some node \<longrightarrow>
        node \<in> S \<and> (\<exists>i. 0 \<le> i \<and> i < r \<and> k = vnode h i node))"

definition succ_key :: "int set \<Rightarrow> int \<Rightarrow> int" where
  "succ_key K x = (if \<exists>y\<in>K. x \<le> y then Min {y \<in> K. x \<le> y} else Min K)"


section \<open>Byte views, the cache shell and groups (package geecache)\<close>

text \<open>
  A \<open>ByteView\<close> wraps a byte slice; \<open>cloneBytes\<close> copies a slice, which is the identity on
  values. A Go \<open>error\<close> is modelled by its message and a panic by the value it carries.
\<close>

datatype ByteView = ByteView (ByteView_b: string)

definition ByteView_Len :: "ByteView \<Rightarrow> nat" where
  "ByteView_Len v = length (ByteView_b v)"

definition cloneBytes :: "string \<Rightarrow> string" where
  "cloneBytes bs = bs"

definition ByteSlice :: "ByteView \<Rightarrow> string" where
  "ByteSlice v = cloneBytes (ByteView_b v)"

datatype error = Error string

datatype panic = Panic string

subsection \<open>The concurrent cache shell\<close>

text \<open>
  The struct \<open>cache\<close>: the engine pointer \<open>lru\<close> is nil until the first \<open>add\<close>. Both
  methods hold the mutex \<open>mu\<close> from entry to exit, so each is one atomic step on the
  shell. The engine is created without a callback; its outside world is \<open>unit\<close>.
  \<open>add\<close> returns when \<open>lru.Add\<close> does.
\<close>

record cache_shell =
  lru :: "(ByteView, unit) Cache option"
  cacheBytes :: int

definition cache_add :: "cache_shell \<Rightarrow> string \<Rightarrow> ByteView \<Rightarrow> cache_shell option" where
  "cache_add c k v =
     (let l = (case lru c of None \<Rightarrow> lru_New (cacheBytes c) None | Some l \<Rightarrow> l)
      in (case lru_Add ByteView_Len k v (l, ()) of
            None \<Rightarrow> None
          | Some (l', u) \<Rightarrow> Some (c\<lparr>lru := Some l'\<rparr>)))"

definition cache_get :: "cache_shell \<Rightarrow> string \<Rightarrow> ByteView option \<times> cache_shell" where
  "cache_get c k =
     (case lru c of
        None \<Rightarrow> (None, c)
      | Some l \<Rightarrow>
          (case lru_Get k l of
             (Some v, l') \<Rightarrow> (Some v, c\<lparr>lru := Some l'\<rparr>)
           | (None, l') \<Rightarrow> (None, c\<lparr>lru := Some l'\<rparr>)))"

subsection \<open>Loaders and peers\<close>

text \<open>
  The interfaces \<open>Getter\<close>, \<open>PeerGetter\<close> and \<open>PeerPicker\<close> are implemented outside the
  group and may do I/O: each call reads and changes an outside world \<open>'w\<close>. A call
  returning \<open>(bytes, err)\<close> is a sum, \<open>Inl\<close> the error. \<open>PickPeer\<close> returns a peer
  together with \<open>ok = true\<close>, or \<open>(nil, false)\<close>.
\<close>

type_synonym 'w Getter = "string \<Rightarrow> 'w \<Rightarrow> (error + string) \<times> 'w"

type_synonym 'w PeerGetter = "string \<Rightarrow> string \<Rightarrow> 'w \<Rightarrow> (error + string) \<times> 'w"

type_synonym 'w PeerPicker = "string \<Rightarrow> 'w \<Rightarrow> 'w PeerGetter option \<times> 'w"

record 'w Group =
  name :: string
  getter :: "'w Getter"
  mainCache :: cache_shell
  peers :: "'w PeerPicker option"

text \<open>
  \<open>NewGroup\<close> and the registry \<open>groups\<close>. The \<open>getter\<close> argument is an interface value
  and may be nil. A call either returns or panics.
\<close>

definition NewGroup ::
  "string \<Rightarrow> int \<Rightarrow> 'w Getter option \<Rightarrow> (string \<rightharpoonup> 'w Group) \<Rightarrow>
   panic + ('w Group \<times> (string \<rightharpoonup> 'w Group))" where
  "NewGroup nm cb gt groups =
     (case gt of
        None \<Rightarrow> Inl (Panic ''nil Getter'')
      | Some f \<Rightarrow>
          let g = \<lparr>name = nm, getter = f, mainCache = \<lparr>lru = None, cacheBytes = cb\<rparr>,
                   peers = None\<rparr>
          in Inr (g, groups(nm \<mapsto> g)))"

definition GetGroup :: "string \<Rightarrow> (string \<rightharpoonup> 'w Group) \<Rightarrow> 'w Group option" where
  "GetGroup nm groups = groups nm"

definition RegisterPeers :: "'w Group \<Rightarrow> 'w PeerPicker \<Rightarrow> panic + 'w Group" where
  "RegisterPeers g pp =
     (if peers g \<noteq> None then Inl (Panic ''RegisterPeerPicker called more than once'')
      else Inr (g\<lparr>peers := Some pp\<rparr>))"

text \<open>
  The load pipeline. Every function returns the result pair \<open>(ByteView, error)\<close> of the
  source, the group (whose cache may have changed) and the world; the whole is \<open>None\<close>
  when the call does not return. Log output is not modelled.
\<close>

type_synonym 'w result = "((ByteView \<times> error option) \<times> 'w Group \<times> 'w) option"

definition populateCache :: "'w Group \<Rightarrow> string \<Rightarrow> ByteView \<Rightarrow> 'w Group option" where
  "populateCache g k v =
     (case cache_add (mainCache g) k v of
        None \<Rightarrow> None
      | Some c \<Rightarrow> Some (g\<lparr>mainCache := c\<rparr>))"

definition getLocally :: "'w Group \<Rightarrow> string \<Rightarrow> 'w \<Rightarrow> 'w result" where
  "getLocally g k w =
     (case getter g k w of
        (Inl err, w') \<Rightarrow> Some ((ByteView [], Some err), g, w')
      | (Inr bytes, w') \<Rightarrow>
          let v = ByteView (cloneBytes bytes)
          in (case populateCache g k v of
                None \<Rightarrow> None
              | Some g' \<Rightarrow> Some ((v, None), g', w')))"

definition getFromPeer ::
  "'w Group \<Rightarrow> 'w PeerGetter \<Rightarrow> string \<Rightarrow> 'w \<Rightarrow> (ByteView \<times> error option) \<times> 'w" where
  "getFromPeer g peer k w =
     (case peer (name g) k w of
        (Inl err, w') \<Rightarrow> ((ByteView [], Some err), w')
      | (Inr bytes, w') \<Rightarrow> ((ByteView bytes, None), w'))"

definition load :: "'w Group \<Rightarrow> string \<Rightarrow> 'w \<Rightarrow> 'w result" where
  "load g k w =
     (case peers g of
        Some pp \<Rightarrow>
          (case pp k w of
             (Some peer, w1) \<Rightarrow>
               (case getFromPeer g peer k w1 of
                  ((v, None), w2) \<Rightarrow> Some ((v, None), g, w2)
                | ((v, Some err), w2) \<Rightarrow> getLocally g k w2)
           | (None, w1) \<Rightarrow> getLocally g k w1)
      | None \<Rightarrow> getLocally g k w)"

definition Group_Get :: "'w Group \<Rightarrow> string \<Rightarrow> 'w \<Rightarrow> 'w result" where
  "Group_Get g k w =
     (if k = '''' then Some ((ByteView [], Some (Error ''key is required'')), g, w)
      else
        (case cache_get (mainCache g) k of
           (Some v, c) \<Rightarrow> Some ((v, None), g\<lparr>mainCache := c\<rparr>, w)
         | (None, c) \<Rightarrow> load (g\<lparr>mainCache := c\<rparr>) k w))"

text \<open>
  The invariant of a shell: its engine, once created, satisfies the engine's
  invariant and has the shell's capacity.
\<close>

definition shell_inv :: "cache_shell \<Rightarrow> bool" where
  "shell_inv s \<longleftrightarrow>
     (case lru s of
        None \<Rightarrow> True
      | Some l \<Rightarrow> lru_inv ByteView_Len l \<and> maxBytes l = cacheBytes s)"


section \<open>Concurrent calls of \<open>Group.Get\<close>\<close>

text \<open>
  \<open>Group\<close> has the fields \<open>name\<close>, \<open>getter\<close>, \<open>mainCache\<close> and \<open>peers\<close>, and its methods
  take no lock of their own: the only synchronisation on the path of \<open>Get\<close> is the
  mutex inside the cache shell (and the one inside the peer picker). Goroutines that
  call \<open>Get\<close> on one group therefore interleave at the calls the path makes. A
  goroutine is modelled by the point it has reached:
  \<^item> \<open>At_Get k\<close>: \<open>Get(k)\<close> has been called;
  \<^item> \<open>At_load k\<close>: \<open>mainCache.get\<close> has missed and \<open>load(k)\<close> is about to run;
  \<^item> \<open>At_getFromPeer peer k\<close>: \<open>PickPeer\<close> has selected \<open>peer\<close>;
  \<^item> \<open>At_getLocally k\<close>: the source loader is about to be called;
  \<^item> \<open>At_populateCache k v\<close>: the loader has returned \<open>v\<close>, not yet added to the cache;
  \<^item> \<open>Returned r\<close>: \<open>Get\<close> has returned \<open>r\<close>.
  \<open>thread_step\<close> runs one goroutine up to its next point, on the group and the world as
  they are at that moment; a step is \<open>None\<close> when it does not return.
\<close>

datatype 'w pc =
    At_Get string
  | At_load string
  | At_getFromPeer "'w PeerGetter" string
  | At_getLocally string
  | At_populateCache string ByteView
  | Returned "ByteView \<times> error option"

fun thread_step :: "'w Group \<Rightarrow> 'w \<Rightarrow> 'w pc \<Rightarrow> ('w pc \<times> 'w Group \<times> 'w) option" where
  "thread_step g w (At_Get k) =
     (if k = '''' then Some (Returned (ByteView [], Some (Error ''key is required'')), g, w)
      else
        (case cache_get (mainCache g) k of
           (Some v, c) \<Rightarrow> Some (Returned (v, None), g\<lparr>mainCache := c\<rparr>, w)
         | (None, c) \<Rightarrow> Some (At_load k, g\<lparr>mainCache := c\<rparr>, w)))"
| "thread_step g w (At_load k) =
     (case peers g of
        Some pp \<Rightarrow>
          (case pp k w of
             (Some peer, w1) \<Rightarrow> Some (At_getFromPeer peer k, g, w1)
           | (None, w1) \<Rightarrow> Some (At_getLocally k, g, w1))
      | None \<Rightarrow> Some (At_getLocally k, g, w))"
| "thread_step g w (At_getFromPeer peer k) =
     (case getFromPeer g peer k w of
        ((v, None), w2) \<Rightarrow> Some (Returned (v, None), g, w2)
      | ((v, Some err), w2) \<Rightarrow> Some (At_getLocally k, g, w2))"
| "thread_step g w (At_getLocally k) =
     (case getter g k w of
        (Inl err, w') \<Rightarrow> Some (Returned (ByteView [], Some err), g, w')
      | (Inr bytes, w') \<Rightarrow> Some (At_populateCache k (ByteView (cloneBytes bytes)), g, w'))"
| "thread_step g w (At_populateCache k v) =
     (case populateCache g k v of
        None \<Rightarrow> None
      | Some g' \<Rightarrow> Some (Returned (v, None), g', w))"
| "thread_step g w (Returned r) = Some (Returned r, g, w)"

text \<open>
  A configuration is the list of goroutines with the shared group and world; a
  schedule names the goroutine that moves at each step.
\<close>

type_synonym 'w config = "'w pc list \<times> 'w Group \<times> 'w"

definition sched_step :: "nat \<Rightarrow> 'w config \<Rightarrow> 'w config option" where
  "sched_step i cfg =
     (case cfg of (ths, g, w) \<Rightarrow>
        if i < length ths
        then (case thread_step g w (ths ! i) of
                None \<Rightarrow> None
              | Some (t, g', w') \<Rightarrow> Some (ths[i := t], g', w'))
        else Some cfg)"

fun run_schedule :: "nat list \<Rightarrow> 'w config \<Rightarrow> 'w config option" where
  "run_schedule [] cfg = Some cfg"
| "run_schedule (i # is) cfg =
     (case sched_step i cfg of None \<Rightarrow> None | Some cfg' \<Rightarrow> run_schedule is cfg')"

subsection \<open>Example groups\<close>

text \<open>
  The data source of the package's test, \<open>db\<close> with its loader, a peer that answers and
  a peer that fails, and a loader that counts its calls and tells each caller the
  count it had (its world is the number of calls made so far). \<open>scores\<close> is the group
  of the test; \<open>counted\<close> is the same group over the counting loader.
\<close>

definition db :: "string \<rightharpoonup> string" where
  "db = [''Tom'' \<mapsto> ''630'', ''Jack'' \<mapsto> ''589'', ''Sam'' \<mapsto> ''567'']"

definition db_getter :: "unit Getter" where
  "db_getter k w =
     (case db k of
        Some v \<Rightarrow> (Inr v, w)
      | None \<Rightarrow> (Inl (Error (k @ '' not exist'')), w))"

definition peer_ok :: "unit PeerGetter" where
  "peer_ok grp k w = (Inr ''589'', w)"

definition peer_down :: "unit PeerGetter" where
  "peer_down grp k w = (Inl (Error ''server returned: 500 Internal Server Error''), w)"

definition scores :: "unit Group" where
  "scores = \<lparr>name = ''scores'', getter = db_getter,
             mainCache = \<lparr>lru = None, cacheBytes = 2048\<rparr>, peers = None\<rparr>"

definition counting_getter :: "nat Getter" where
  "counting_getter k n = (Inr (Itoa_nat n), Suc n)"

definition counted :: "nat Group" where
  "counted = \<lparr>name = ''scores'', getter = counting_getter,
              mainCache = \<lparr>lru = None, cacheBytes = 2048\<rparr>, peers = None\<rparr>"


section \<open>Properties of the LRU engine\<close>


lemma sum_sizes_nonneg: "0 \<le> (\<Sum>e\<leftarrow>xs. entry_size vlen e)"
  by (induction xs) (simp_all add: entry_size_def)

lemma lru_inv_New: "lru_inv vlen (lru_New m cb)"
  by (simp add: lru_inv_def lru_New_def)

lemma RemoveOldest_fields:
  "maxBytes (fst (lru_RemoveOldest vlen (c, w))) = maxBytes c"
  "OnEvicted (fst (lru_RemoveOldest vlen (c, w))) = OnEvicted c"
  "ll (fst (lru_RemoveOldest vlen (c, w))) = butlast (ll c)"
  by (simp_all add: lru_RemoveOldest_def Let_def split: option.splits)

lemma RemoveOldest_state:
  "ll c \<noteq> [] \<Longrightarrow>
   fst (lru_RemoveOldest vlen (c, w)) =
     c\<lparr>ll := butlast (ll c), cache := (cache c)(fst (last (ll c)) := None),
       nbytes := nbytes c - entry_size vlen (last (ll c))\<rparr>"
  by (simp add: lru_RemoveOldest_def Let_def entry_size_def split: option.splits)

lemma lru_inv_RemoveOldest:
  assumes "lru_inv vlen c"
  shows "lru_inv vlen (fst (lru_RemoveOldest vlen (c, w)))"
proof (cases "ll c = []")
  case True
  with assms show ?thesis by (simp add: lru_RemoveOldest_def)
next
  case False
  then obtain ys e where xs: "ll c = ys @ [e]"
    by (metis append_butlast_last_id)
  from assms have inv: "distinct (map fst (ys @ [e])) \<and>
      (\<forall>k x. cache c k = Some x \<longleftrightarrow> x \<in> set (ys @ [e]) \<and> fst x = k) \<and>
      nbytes c = (\<Sum>x\<leftarrow>ys @ [e]. entry_size vlen x)"
    unfolding lru_inv_def xs .
  from inv have d: "distinct (map fst ys)" by simp
  from inv have "fst e \<notin> fst ` set ys" by simp
  then have notin: "\<And>x. x \<in> set ys \<Longrightarrow> fst x \<noteq> fst e" by (metis imageI)
  from inv have idx: "\<And>k x. cache c k = Some x \<longleftrightarrow> x \<in> set (ys @ [e]) \<and> fst x = k" by blast
  from inv have nb: "nbytes c = (\<Sum>x\<leftarrow>ys. entry_size vlen x) + entry_size vlen e" by simp
  have st: "fst (lru_RemoveOldest vlen (c, w)) =
      c\<lparr>ll := ys, cache := (cache c)(fst e := None), nbytes := nbytes c - entry_size vlen e\<rparr>"
    using RemoveOldest_state [OF False, of vlen w] by (simp add: xs)
  have "\<And>k x. ((cache c)(fst e := None)) k = Some x \<longleftrightarrow> x \<in> set ys \<and> fst x = k"
    using idx notin by auto
  with d nb show ?thesis
    unfolding st lru_inv_def by simp
qed

lemma evict_unfold:
  "evict vlen cw = (if over_limit (fst cw) then evict vlen (lru_RemoveOldest vlen cw) else Some cw)"
  by (subst evict.simps) (simp add: over_limit_def)

lemma RemoveOldest_iter:
  assumes "lru_inv vlen c"
  shows "lru_inv vlen (fst ((lru_RemoveOldest vlen ^^ n) (c, w))) \<and>
         ll (fst ((lru_RemoveOldest vlen ^^ n) (c, w))) = take (length (ll c) - n) (ll c) \<and>
         maxBytes (fst ((lru_RemoveOldest vlen ^^ n) (c, w))) = maxBytes c \<and>
         OnEvicted (fst ((lru_RemoveOldest vlen ^^ n) (c, w))) = OnEvicted c"
proof (induction n)
  case 0
  with assms show ?case by simp
next
  case (Suc n)
  obtain c' w' where it: "(lru_RemoveOldest vlen ^^ n) (c, w) = (c', w')"
    by (cases "(lru_RemoveOldest vlen ^^ n) (c, w)")
  from Suc it have ih: "lru_inv vlen c'" "ll c' = take (length (ll c) - n) (ll c)"
    "maxBytes c' = maxBytes c" "OnEvicted c' = OnEvicted c"
    by simp_all
  have "butlast (take (length (ll c) - n) (ll c)) = take (length (ll c) - Suc n) (ll c)"
    by (simp add: butlast_take)
  with ih show ?case
    by (simp add: it lru_inv_RemoveOldest RemoveOldest_fields)
qed

lemma evict_partial:
  assumes "evict vlen cw = Some cw'"
  shows "\<exists>n. cw' = (lru_RemoveOldest vlen ^^ n) cw \<and> \<not> over_limit (fst cw') \<and>
       (\<forall>j<n. over_limit (fst ((lru_RemoveOldest vlen ^^ j) cw)))"
proof (rule evict.raw_induct [where P = "\<lambda>vlen cw cw'.
    \<exists>n. cw' = (lru_RemoveOldest vlen ^^ n) cw \<and> \<not> over_limit (fst cw') \<and>
       (\<forall>j<n. over_limit (fst ((lru_RemoveOldest vlen ^^ j) cw)))", OF _ assms], goal_cases)
  case (1 evict' vlen cw cw')
  show ?case
  proof (cases "over_limit (fst cw)")
    case False
    with 1(2) have "cw' = cw" by (auto simp: over_limit_def split: if_splits)
    with False show ?thesis by (intro exI [of _ 0]) simp
  next
    case True
    with 1(2) have "evict' vlen (lru_RemoveOldest vlen cw) = Some cw'"
      by (auto simp: over_limit_def split: if_splits)
    from 1(1) [OF this] obtain n where n:
      "cw' = (lru_RemoveOldest vlen ^^ n) (lru_RemoveOldest vlen cw)"
      "\<not> over_limit (fst cw')"
      "\<forall>j<n. over_limit (fst ((lru_RemoveOldest vlen ^^ j) (lru_RemoveOldest vlen cw)))"
      by blast
    have "\<forall>j<Suc n. over_limit (fst ((lru_RemoveOldest vlen ^^ j) cw))"
    proof (intro allI impI)
      fix j assume "j < Suc n"
      show "over_limit (fst ((lru_RemoveOldest vlen ^^ j) cw))"
      proof (cases j)
        case 0 with True show ?thesis by simp
      next
        case (Suc i)
        with \<open>j < Suc n\<close> n(3) show ?thesis by (simp add: funpow_swap1)
      qed
    qed
    with n(1,2) show ?thesis
      by (intro exI [of _ "Suc n"]) (simp add: funpow_swap1)
  qed
qed

lemma evict_returns:
  assumes "lru_inv vlen c" "0 \<le> maxBytes c"
  shows "\<exists>n\<le>length (ll c). evict vlen (c, w) = Some ((lru_RemoveOldest vlen ^^ n) (c, w))"
  using assms
proof (induction "length (ll c)" arbitrary: c w)
  case 0
  then have "nbytes c = 0" by (simp add: lru_inv_def)
  with 0 have "\<not> over_limit c" by (simp add: over_limit_def)
  then have "evict vlen (c, w) = Some ((lru_RemoveOldest vlen ^^ 0) (c, w))"
    by (subst evict_unfold) simp
  then show ?case by blast
next
  case (Suc m)
  show ?case
  proof (cases "over_limit c")
    case False
    then have "evict vlen (c, w) = Some ((lru_RemoveOldest vlen ^^ 0) (c, w))"
      by (subst evict_unfold) simp
    then show ?thesis by blast
  next
    case True
    obtain c' w' where ro: "lru_RemoveOldest vlen (c, w) = (c', w')"
      by (cases "lru_RemoveOldest vlen (c, w)")
    have c': "lru_inv vlen c'" "maxBytes c' = maxBytes c" "ll c' = butlast (ll c)"
      using lru_inv_RemoveOldest [OF Suc.prems(1), of w] RemoveOldest_fields [of vlen c w]
      by (simp_all add: ro)
    with Suc have "m = length (ll c')" by simp
    from Suc.hyps(1) [OF this c'(1)] c'(2) Suc.prems(2)
    obtain n where n: "n \<le> length (ll c')"
      "evict vlen (c', w') = Some ((lru_RemoveOldest vlen ^^ n) (c', w'))"
      by auto
    have "evict vlen (c, w) = Some ((lru_RemoveOldest vlen ^^ Suc n) (c, w))"
      using True n(2) by (subst evict_unfold) (simp add: ro funpow_swap1)
    moreover have "Suc n \<le> length (ll c)" using n(1) c'(3) Suc.hyps(2) by simp
    ultimately show ?thesis by blast
  qed
qed

lemma remove1_distinct_keys:
  "distinct (map fst xs) \<Longrightarrow> e \<in> set xs \<Longrightarrow> remove1 e xs = filter (\<lambda>x. fst x \<noteq> fst e) xs"
proof (induction xs)
  case Nil
  then show ?case by simp
next
  case (Cons a xs)
  show ?case
  proof (cases "a = e")
    case True
    from Cons.prems(1) have "\<forall>x\<in>set xs. fst x \<noteq> fst a" by (auto simp: image_iff)
    then have "filter (\<lambda>x. fst x \<noteq> fst a) xs = xs" by (simp add: filter_id_conv)
    with True show ?thesis by simp
  next
    case False
    with Cons.prems have "e \<in> set xs" by simp
    with Cons.prems(1) have "fst a \<noteq> fst e" by (auto simp: image_iff)
    with Cons False \<open>e \<in> set xs\<close> show ?thesis by simp
  qed
qed

lemma filter_absent_key:
  "k \<notin> fst ` set xs \<Longrightarrow> filter (\<lambda>x. fst x \<noteq> k) xs = xs"
  by (induction xs) auto

lemma distinct_filter_keys:
  "distinct (map fst xs) \<Longrightarrow> distinct (map fst (filter P xs))"
  by (induction xs) auto

lemma entry_size_pair: "entry_size vlen (k, v) = int (length k) + int (vlen v)"
  by (simp add: entry_size_def)

lemma entry_size_snd: "entry_size vlen e = int (length (fst e)) + int (vlen (snd e))"
  by (simp add: entry_size_def)

lemma Add_before_evict:
  assumes "lru_inv vlen c"
  shows "\<exists>c0. lru_Add vlen k v (c, w) = evict vlen (c0, w) \<and> lru_inv vlen c0 \<and>
           ll c0 = (k, v) # filter (\<lambda>x. fst x \<noteq> k) (ll c) \<and>
           maxBytes c0 = maxBytes c \<and> OnEvicted c0 = OnEvicted c"
proof -
  from assms have d: "distinct (map fst (ll c))"
    and idx: "\<And>k x. cache c k = Some x \<longleftrightarrow> x \<in> set (ll c) \<and> fst x = k"
    and nb: "nbytes c = (\<Sum>x\<leftarrow>ll c. entry_size vlen x)"
    unfolding lru_inv_def by blast+
  let ?rest = "filter (\<lambda>x. fst x \<noteq> k) (ll c)"
  have drest: "distinct (map fst ?rest)" using d by (rule distinct_filter_keys)
  have krest: "k \<notin> fst ` set ?rest" by auto
  show ?thesis
  proof (cases "cache c k")
    case None
    have absent: "k \<notin> fst ` set (ll c)"
    proof
      assume "k \<in> fst ` set (ll c)"
      then obtain x where "x \<in> set (ll c)" "fst x = k" by blast
      with idx [of k x] None show False by simp
    qed
    then have rest: "?rest = ll c" by (rule filter_absent_key)
    let ?c0 = "c\<lparr>ll := (k, v) # ll c, cache := (cache c)(k \<mapsto> (k, v)),
                 nbytes := nbytes c + (int (length k) + int (vlen v))\<rparr>"
    have "lru_Add vlen k v (c, w) = evict vlen (?c0, w)"
      by (simp add: lru_Add_def None Let_def)
    moreover have "lru_inv vlen ?c0"
    proof -
      have "\<And>k' x. ((cache c)(k \<mapsto> (k, v))) k' = Some x \<longleftrightarrow>
          x \<in> set ((k, v) # ll c) \<and> fst x = k'"
      proof -
        fix k' x
        show "((cache c)(k \<mapsto> (k, v))) k' = Some x \<longleftrightarrow>
          x \<in> set ((k, v) # ll c) \<and> fst x = k'"
          using idx [of k' x] absent by (cases "k' = k") (auto simp: image_iff)
      qed
      with d absent nb show ?thesis
        unfolding lru_inv_def by (simp add: entry_size_pair)
    qed
    ultimately show ?thesis using rest by (intro exI [of _ ?c0]) simp
  next
    case (Some ele)
    with idx [of k ele] have ele: "ele \<in> set (ll c)" "fst ele = k" by simp_all
    have rm: "remove1 ele (ll c) = ?rest"
      using remove1_distinct_keys [OF d ele(1)] ele(2) by simp
    have notin: "ele \<notin> set ?rest" using ele(2) by auto
    have mp: "map (\<lambda>e. if e = ele then (k, v) else e) ?rest = ?rest"
      by (rule map_idI) (use ele(2) in auto)
    let ?c0 = "c\<lparr>nbytes := nbytes c + (int (vlen v) - int (vlen (snd ele))),
                 ll := (k, v) # ?rest, cache := (cache c)(k \<mapsto> (k, v))\<rparr>"
    have "lru_Add vlen k v (c, w) = evict vlen (?c0, w)"
      using ele(1) by (simp add: lru_Add_def Some Let_def MoveToFront_def rm mp ele(2))
    moreover have sz: "(\<Sum>x\<leftarrow>ll c. entry_size vlen x) =
        entry_size vlen ele + (\<Sum>x\<leftarrow>?rest. entry_size vlen x)"
      using sum_list_map_remove1 [OF ele(1), of "entry_size vlen"] rm by simp
    have idx': "\<And>k' x. ((cache c)(k \<mapsto> (k, v))) k' = Some x \<longleftrightarrow>
        x \<in> set ((k, v) # ?rest) \<and> fst x = k'"
    proof -
      fix k' x
      have "x \<in> set ?rest \<longleftrightarrow> x \<in> set (ll c) \<and> fst x \<noteq> k" by simp
      then show "((cache c)(k \<mapsto> (k, v))) k' = Some x \<longleftrightarrow>
        x \<in> set ((k, v) # ?rest) \<and> fst x = k'"
        using idx [of k' x] by (cases "k' = k") auto
    qed
    have "lru_inv vlen ?c0"
      unfolding lru_inv_def using drest krest idx' nb sz ele(2)
      by (simp add: entry_size_pair entry_size_snd [of vlen ele])
    ultimately show ?thesis by (intro exI [of _ ?c0]) simp
  qed
qed

lemma take_sum_ge_head:
  assumes "0 < n"
  shows "entry_size vlen e \<le> (\<Sum>x\<leftarrow>take n (e # xs). entry_size vlen x)"
proof -
  from assms obtain m where "n = Suc m" by (cases n) auto
  then show ?thesis using sum_sizes_nonneg [of vlen "take m xs"] by simp
qed

lemma lru_Add_returns:
  assumes inv: "lru_inv vlen c" and mb: "0 \<le> maxBytes c"
  shows "\<exists>c' w' n. lru_Add vlen k v (c, w) = Some (c', w') \<and> lru_inv vlen c' \<and>
           maxBytes c' = maxBytes c \<and> OnEvicted c' = OnEvicted c \<and>
           \<not> over_limit c' \<and>
           ll c' = take n ((k, v) # filter (\<lambda>x. fst x \<noteq> k) (ll c)) \<and>
           (0 < n \<longleftrightarrow> maxBytes c = 0 \<or> entry_size vlen (k, v) \<le> maxBytes c)"
proof -
  let ?xs = "(k, v) # filter (\<lambda>x. fst x \<noteq> k) (ll c)"
  from Add_before_evict [OF inv, of k v w] obtain c0 where c0:
    "lru_Add vlen k v (c, w) = evict vlen (c0, w)" "lru_inv vlen c0"
    "ll c0 = ?xs" "maxBytes c0 = maxBytes c" "OnEvicted c0 = OnEvicted c"
    by blast
  from evict_returns [OF c0(2), of w] mb c0(4) obtain i where i:
    "evict vlen (c0, w) = Some ((lru_RemoveOldest vlen ^^ i) (c0, w))" "i \<le> length (ll c0)"
    by auto
  from evict_partial [OF i(1)] obtain j where j:
    "(lru_RemoveOldest vlen ^^ i) (c0, w) = (lru_RemoveOldest vlen ^^ j) (c0, w)"
    "\<not> over_limit (fst ((lru_RemoveOldest vlen ^^ i) (c0, w)))"
    "\<forall>l<j. over_limit (fst ((lru_RemoveOldest vlen ^^ l) (c0, w)))"
    by blast
  obtain c' w' where cw': "(lru_RemoveOldest vlen ^^ i) (c0, w) = (c', w')"
    by (cases "(lru_RemoveOldest vlen ^^ i) (c0, w)")
  from RemoveOldest_iter [OF c0(2), of i w] cw' c0
  have c': "lru_inv vlen c'" "ll c' = take (length ?xs - i) ?xs"
    "maxBytes c' = maxBytes c" "OnEvicted c' = OnEvicted c"
    by simp_all
  from j(2) cw' have exit: "\<not> over_limit c'" by simp
  have nb': "nbytes c' = (\<Sum>x\<leftarrow>take (length ?xs - i) ?xs. entry_size vlen x)"
    using c'(1,2) by (simp add: lru_inv_def)
  have "0 < length ?xs - i \<longleftrightarrow> maxBytes c = 0 \<or> entry_size vlen (k, v) \<le> maxBytes c"
  proof
    assume pos: "0 < length ?xs - i"
    from take_sum_ge_head [OF pos, of vlen "(k, v)"] nb'
    have "entry_size vlen (k, v) \<le> nbytes c'" by simp
    with exit c'(3) show "maxBytes c = 0 \<or> entry_size vlen (k, v) \<le> maxBytes c"
      by (auto simp: over_limit_def)
  next
    assume fits: "maxBytes c = 0 \<or> entry_size vlen (k, v) \<le> maxBytes c"
    show "0 < length ?xs - i"
    proof (rule ccontr)
      assume "\<not> 0 < length ?xs - i"
      then have full: "length ?xs \<le> i" by simp
      from j(1) cw' have "(lru_RemoveOldest vlen ^^ j) (c0, w) = (c', w')" by simp
      then have "ll (fst ((lru_RemoveOldest vlen ^^ j) (c0, w))) = ll c'" by simp
      with RemoveOldest_iter [OF c0(2), of j w] c0(3) c'(2) full
      have "take (length ?xs - j) ?xs = []" by simp
      then have "length ?xs \<le> j" by simp
      then have lt: "length ?xs - 1 < j" by simp
      let ?s = "fst ((lru_RemoveOldest vlen ^^ (length ?xs - 1)) (c0, w))"
      from j(3) lt have ov: "over_limit ?s" by blast
      from RemoveOldest_iter [OF c0(2), of "length ?xs - 1" w] c0(3,4)
      have "lru_inv vlen ?s" "ll ?s = [(k, v)]" "maxBytes ?s = maxBytes c" by simp_all
      then have "nbytes ?s = entry_size vlen (k, v)" "maxBytes ?s = maxBytes c"
        by (simp_all add: lru_inv_def)
      with ov fits show False by (auto simp: over_limit_def)
    qed
  qed
  moreover have "lru_Add vlen k v (c, w) = Some (c', w')"
    using c0(1) i(1) cw' by simp
  ultimately show ?thesis
    using c' exit by (intro exI [of _ c'] exI [of _ w'] exI [of _ "length ?xs - i"]) simp
qed

lemma lru_Add_partial:
  assumes inv: "lru_inv vlen c" and ret: "lru_Add vlen k v (c, w) = Some (c', w')"
  shows "lru_inv vlen c' \<and> maxBytes c' = maxBytes c \<and> OnEvicted c' = OnEvicted c \<and>
         \<not> over_limit c'"
proof -
  from Add_before_evict [OF inv, of k v w] obtain c0 where c0:
    "lru_Add vlen k v (c, w) = evict vlen (c0, w)" "lru_inv vlen c0"
    "maxBytes c0 = maxBytes c" "OnEvicted c0 = OnEvicted c"
    by blast
  from c0(1) ret have "evict vlen (c0, w) = Some (c', w')" by simp
  from evict_partial [OF this] obtain n where n:
    "(c', w') = (lru_RemoveOldest vlen ^^ n) (c0, w)" "\<not> over_limit c'"
    by auto
  from n(1) have "c' = fst ((lru_RemoveOldest vlen ^^ n) (c0, w))"
    by (metis fst_conv)
  with RemoveOldest_iter [OF c0(2), of n w] c0(3,4) n(2) show ?thesis by simp
qed

lemma insert_remove1: "x \<in> set xs \<Longrightarrow> insert x (set (remove1 x xs)) = set xs"
  by (induction xs) auto

lemma lru_Get_state:
  assumes inv: "lru_inv vlen c"
  shows "lru_inv vlen (snd (lru_Get k c)) \<and> maxBytes (snd (lru_Get k c)) = maxBytes c \<and>
         OnEvicted (snd (lru_Get k c)) = OnEvicted c \<and> nbytes (snd (lru_Get k c)) = nbytes c"
proof (cases "cache c k")
  case None
  with inv show ?thesis by (simp add: lru_Get_def)
next
  case (Some ele)
  from inv have d: "distinct (map fst (ll c))"
    and idx: "\<And>k x. cache c k = Some x \<longleftrightarrow> x \<in> set (ll c) \<and> fst x = k"
    and nb: "nbytes c = (\<Sum>x\<leftarrow>ll c. entry_size vlen x)"
    unfolding lru_inv_def by blast+
  from idx [of k ele] Some have ele: "ele \<in> set (ll c)" "fst ele = k" by simp_all
  have rm: "remove1 ele (ll c) = filter (\<lambda>x. fst x \<noteq> k) (ll c)"
    using remove1_distinct_keys [OF d ele(1)] ele(2) by simp
  have st: "snd (lru_Get k c) = c\<lparr>ll := ele # filter (\<lambda>x. fst x \<noteq> k) (ll c)\<rparr>"
    using ele(1) by (simp add: lru_Get_def Some MoveToFront_def rm)
  have d': "distinct (map fst (ele # filter (\<lambda>x. fst x \<noteq> k) (ll c)))"
    using distinct_filter_keys [OF d, of "\<lambda>x. fst x \<noteq> k"] ele(2) by auto
  have set': "set (ele # filter (\<lambda>x. fst x \<noteq> k) (ll c)) = set (ll c)"
    using insert_remove1 [OF ele(1)] by (simp add: rm)
  have sz: "(\<Sum>x\<leftarrow>ll c. entry_size vlen x) =
      entry_size vlen ele + (\<Sum>x\<leftarrow>filter (\<lambda>x. fst x \<noteq> k) (ll c). entry_size vlen x)"
    using sum_list_map_remove1 [OF ele(1), of "entry_size vlen"] rm by simp
  have "lru_inv vlen (c\<lparr>ll := ele # filter (\<lambda>x. fst x \<noteq> k) (ll c)\<rparr>)"
    unfolding lru_inv_def using d' idx nb sz set' by simp
  then show ?thesis by (simp add: st)
qed





















section \<open>Properties of the consistent-hash ring\<close>

declare search_loop.simps [simp del]
declare Itoa_nat.simps [simp del]

lemma midpoint_bounds: "i < j \<Longrightarrow> i \<le> (i + j) div 2 \<and> (i + j) div 2 < (j::nat)"
  by linarith

lemma search_loop_done: "\<not> i < j \<Longrightarrow> search_loop f i j = i"
  by (subst search_loop.simps) simp

lemma search_loop_right:
  "i < j \<Longrightarrow> \<not> f ((i + j) div 2) \<Longrightarrow>
   search_loop f i j = search_loop f ((i + j) div 2 + 1) j"
  by (subst search_loop.simps) (simp add: Let_def)

lemma search_loop_left:
  "i < j \<Longrightarrow> f ((i + j) div 2) \<Longrightarrow> search_loop f i j = search_loop f i ((i + j) div 2)"
  by (subst search_loop.simps) (simp add: Let_def)

lemma search_loop_spec:
  "\<forall>a b. a \<le> b \<and> b < n \<and> f a \<longrightarrow> f b \<Longrightarrow>
   i \<le> j \<Longrightarrow> j \<le> n \<Longrightarrow> \<forall>k. k < i \<longrightarrow> \<not> f k \<Longrightarrow> \<forall>k. j \<le> k \<and> k < n \<longrightarrow> f k \<Longrightarrow>
   i \<le> search_loop f i j \<and> search_loop f i j \<le> j \<and>
   (\<forall>k. k < search_loop f i j \<longrightarrow> \<not> f k) \<and>
   (\<forall>k. search_loop f i j \<le> k \<and> k < n \<longrightarrow> f k)"
proof (induction f i j rule: search_loop.induct)
  case (1 f i j)
  note p = "1.prems"(2-5)
  from "1.prems"(1) have mono: "\<And>a b. a \<le> b \<Longrightarrow> b < n \<Longrightarrow> f a \<Longrightarrow> f b" by blast
  show ?case
  proof (cases "i < j")
    case False
    with p(1) have ij: "i = j" by linarith
    have eq: "search_loop f i j = i" using False by (rule search_loop_done)
    show ?thesis unfolding eq using p(3,4) ij by blast
  next
    case True
    let ?h = "(i + j) div 2"
    from midpoint_bounds [OF True] have h: "i \<le> ?h" "?h < j" by blast+
    show ?thesis
    proof (cases "f ?h")
      case False
      have below: "\<forall>k. k < ?h + 1 \<longrightarrow> \<not> f k"
      proof (intro allI impI)
        fix k assume k: "k < ?h + 1"
        show "\<not> f k"
        proof
          assume fk: "f k"
          have "k \<le> ?h" using k by linarith
          moreover have "?h < n" using h(2) p(2) by linarith
          ultimately have "f ?h" using fk by (rule mono)
          with False show False ..
        qed
      qed
      have eq: "search_loop f i j = search_loop f (?h + 1) j"
        using True False by (rule search_loop_right)
      have le: "?h + 1 \<le> j" using h(2) by linarith
      from "1.IH"(1) [OF True refl False "1.prems"(1) le p(2) below p(4)]
      have r: "?h + 1 \<le> search_loop f (?h + 1) j" "search_loop f (?h + 1) j \<le> j"
        "\<forall>k. k < search_loop f (?h + 1) j \<longrightarrow> \<not> f k"
        "\<forall>k. search_loop f (?h + 1) j \<le> k \<and> k < n \<longrightarrow> f k"
        by blast+
      from r(1) h(1) have "i \<le> search_loop f (?h + 1) j" by linarith
      with r(2-4) show ?thesis unfolding eq by blast
    next
      case fh: True
      have above: "\<forall>k. ?h \<le> k \<and> k < n \<longrightarrow> f k"
      proof (intro allI impI)
        fix k assume "?h \<le> k \<and> k < n"
        then have "?h \<le> k" "k < n" by blast+
        then show "f k" using fh by (rule mono)
      qed
      have eq: "search_loop f i j = search_loop f i ?h"
        using True fh by (rule search_loop_left)
      have le: "?h \<le> n" using h(2) p(2) by linarith
      have nfh: "\<not> \<not> f ?h" using fh by blast
      from "1.IH"(2) [OF True refl nfh "1.prems"(1) h(1) le p(3) above]
      have r: "i \<le> search_loop f i ?h" "search_loop f i ?h \<le> ?h"
        "\<forall>k. k < search_loop f i ?h \<longrightarrow> \<not> f k"
        "\<forall>k. search_loop f i ?h \<le> k \<and> k < n \<longrightarrow> f k"
        by blast+
      from r(2) h(2) have "search_loop f i ?h \<le> j" by linarith
      with r(1,3,4) show ?thesis unfolding eq by blast
    qed
  qed
qed

lemma Search_spec:
  assumes mono: "\<forall>a b. a \<le> b \<and> b < n \<and> f a \<longrightarrow> f b"
  shows "Search n f \<le> n \<and> (\<forall>k. k < Search n f \<longrightarrow> \<not> f k) \<and>
         (Search n f < n \<longrightarrow> f (Search n f))"
proof -
  have "\<forall>k. k < (0::nat) \<longrightarrow> \<not> f k" by blast
  moreover have "\<forall>k. n \<le> k \<and> k < n \<longrightarrow> f k" by auto
  ultimately have
    "0 \<le> search_loop f 0 n \<and> search_loop f 0 n \<le> n \<and>
     (\<forall>k. k < search_loop f 0 n \<longrightarrow> \<not> f k) \<and>
     (\<forall>k. search_loop f 0 n \<le> k \<and> k < n \<longrightarrow> f k)"
    using search_loop_spec [OF mono, of 0 n] by blast
  then show ?thesis unfolding Search_def by blast
qed

lemma sorted_first_ge_is_Min:
  assumes "sorted xs" "i < length xs" "x \<le> xs ! i" "\<forall>j. j < i \<longrightarrow> xs ! j < x"
  shows "xs ! i = Min {y \<in> set xs. (x::int) \<le> y}"
proof -
  have fin: "finite {y \<in> set xs. x \<le> y}" by simp
  have mem: "xs ! i \<in> {y \<in> set xs. x \<le> y}" using assms(2,3) by simp
  have le: "xs ! i \<le> y" if y: "y \<in> {y \<in> set xs. x \<le> y}" for y
  proof -
    from y have "y \<in> set xs" "x \<le> y" by simp_all
    then obtain j where j: "j < length xs" "xs ! j = y" by (metis in_set_conv_nth)
    have "\<not> j < i"
    proof
      assume "j < i"
      with assms(4) have "xs ! j < x" by blast
      with j(2) \<open>x \<le> y\<close> show False by linarith
    qed
    then have "i \<le> j" by simp
    from sorted_nth_mono [OF assms(1) this j(1)] have "xs ! i \<le> xs ! j" .
    with j(2) show ?thesis by simp
  qed
  have "Min {y \<in> set xs. x \<le> y} = xs ! i"
    using fin le mem by (rule Min_eqI)
  then show ?thesis by (rule sym)
qed

lemma sorted_hd_is_Min:
  assumes "sorted xs" "xs \<noteq> []"
  shows "xs ! 0 = Min (set (xs::int list))"
proof -
  have le: "xs ! 0 \<le> y" if "y \<in> set xs" for y
  proof -
    from that obtain j where j: "j < length xs" "xs ! j = y" by (metis in_set_conv_nth)
    have "0 \<le> j" by simp
    from sorted_nth_mono [OF assms(1) this j(1)] have "xs ! 0 \<le> xs ! j" .
    with j(2) show ?thesis by simp
  qed
  have mem: "xs ! 0 \<in> set xs" using assms(2) by simp
  have "Min (set xs) = xs ! 0"
    using finite_set le mem by (rule Min_eqI)
  then show ?thesis by (rule sym)
qed

lemma ch_Get_index:
  assumes srt: "sorted (keys m)" and ne: "keys m \<noteq> []"
  shows "\<exists>i. i < length (keys m) \<and>
           ch_Get m k = (case hashMap m (keys m ! i) of None \<Rightarrow> '''' | Some node \<Rightarrow> node) \<and>
           (if \<exists>y\<in>set (keys m). uint (hash m k) \<le> y
            then uint (hash m k) \<le> keys m ! i \<and> (\<forall>j. j < i \<longrightarrow> keys m ! j < uint (hash m k))
            else i = 0)"
proof -
  let ?n = "length (keys m)"
  let ?h = "uint (hash m k)"
  let ?f = "\<lambda>i. keys m ! i \<ge> ?h"
  let ?idx = "Search ?n ?f"
  have n: "0 < ?n" using ne by simp
  have mono: "\<forall>a b. a \<le> b \<and> b < ?n \<and> ?f a \<longrightarrow> ?f b"
  proof (intro allI impI)
    fix a b assume ab: "a \<le> b \<and> b < ?n \<and> ?f a"
    then have "a \<le> b" "b < ?n" "?h \<le> keys m ! a" by blast+
    from sorted_nth_mono [OF srt this(1,2)] have "keys m ! a \<le> keys m ! b" .
    with \<open>?h \<le> keys m ! a\<close> show "?f b" by linarith
  qed
  from Search_spec [OF mono] have sp: "?idx \<le> ?n" "\<forall>j. j < ?idx \<longrightarrow> \<not> ?f j"
    "?idx < ?n \<longrightarrow> ?f ?idx" by blast+
  have get: "ch_Get m k =
      (case hashMap m (keys m ! (?idx mod ?n)) of None \<Rightarrow> '''' | Some node \<Rightarrow> node)"
    using ne by (simp add: ch_Get_def Let_def)
  show ?thesis
  proof (cases "?idx < ?n")
    case True
    with sp(3) have ge: "?h \<le> keys m ! ?idx" by blast
    with nth_mem [OF True] have ex: "\<exists>y\<in>set (keys m). ?h \<le> y" by blast
    from sp(2) have lt: "\<forall>j. j < ?idx \<longrightarrow> keys m ! j < ?h" by (simp add: not_le)
    from True have "?idx mod ?n = ?idx" by simp
    with get True ex ge lt show ?thesis by (intro exI [of _ ?idx]) simp
  next
    case False
    with sp(1) have eq: "?idx = ?n" by simp
    have nex: "\<not> (\<exists>y\<in>set (keys m). ?h \<le> y)"
    proof
      assume "\<exists>y\<in>set (keys m). ?h \<le> y"
      then obtain j where "j < ?n" "?h \<le> keys m ! j" by (metis in_set_conv_nth)
      with sp(2) eq show False by simp
    qed
    from eq have "?idx mod ?n = 0" by simp
    with get n nex show ?thesis by (intro exI [of _ 0]) simp
  qed
qed

lemma ch_Get_succ_key:
  assumes srt: "sorted (keys m)" and ne: "keys m \<noteq> []"
  shows "ch_Get m k =
           (case hashMap m (succ_key (set (keys m)) (uint (hash m k))) of
              None \<Rightarrow> '''' | Some node \<Rightarrow> node)"
proof -
  from ch_Get_index [OF srt ne, of k] obtain i where i: "i < length (keys m)"
    "ch_Get m k = (case hashMap m (keys m ! i) of None \<Rightarrow> '''' | Some node \<Rightarrow> node)"
    "if \<exists>y\<in>set (keys m). uint (hash m k) \<le> y
     then uint (hash m k) \<le> keys m ! i \<and> (\<forall>j. j < i \<longrightarrow> keys m ! j < uint (hash m k))
     else i = 0"
    by blast
  have "keys m ! i = succ_key (set (keys m)) (uint (hash m k))"
  proof (cases "\<exists>y\<in>set (keys m). uint (hash m k) \<le> y")
    case True
    with i(3) have "uint (hash m k) \<le> keys m ! i"
      "\<forall>j. j < i \<longrightarrow> keys m ! j < uint (hash m k)" by simp_all
    from sorted_first_ge_is_Min [OF srt i(1) this] True show ?thesis
      by (simp add: succ_key_def)
  next
    case False
    with i(3) have "i = 0" by simp
    with sorted_hd_is_Min [OF srt ne] False show ?thesis by (simp add: succ_key_def)
  qed
  with i(2) show ?thesis by simp
qed

lemma foldl_add_replica:
  "hash (foldl (add_replica node) m is) = hash m \<and>
   replicas (foldl (add_replica node) m is) = replicas m \<and>
   keys (foldl (add_replica node) m is) = keys m @ map (\<lambda>i. vnode (hash m) i node) is \<and>
   (\<forall>k. hashMap (foldl (add_replica node) m is) k =
      (if k \<in> (\<lambda>i. vnode (hash m) i node) ` set is then Some node else hashMap m k))"
proof (induction "is" arbitrary: m)
  case Nil
  show ?case by simp
next
  case (Cons i "is")
  let ?m1 = "add_replica node m i"
  have m1: "hash ?m1 = hash m" "replicas ?m1 = replicas m"
    "keys ?m1 = keys m @ [vnode (hash m) i node]"
    "hashMap ?m1 = (hashMap m)(vnode (hash m) i node \<mapsto> node)"
    by (simp_all add: add_replica_def Let_def vnode_def)
  from Cons [of ?m1] show ?case by (simp add: m1)
qed

lemma add_node_fields:
  "hash (add_node m node) = hash m"
  "replicas (add_node m node) = replicas m"
  "keys (add_node m node) = keys m @ map (\<lambda>i. vnode (hash m) i node) [0..replicas m - 1]"
  using foldl_add_replica [of node m "[0..replicas m - 1]"] by (simp_all add: add_node_def)

lemma add_node_hashMap:
  "hashMap (add_node m node) k =
     (if k \<in> (\<lambda>i. vnode (hash m) i node) ` set [0..replicas m - 1] then Some node
      else hashMap m k)"
  using foldl_add_replica [of node m "[0..replicas m - 1]"] by (simp add: add_node_def)

lemma add_node_vnode:
  assumes "0 \<le> i" "i < replicas m"
  shows "hashMap (add_node m node) (vnode (hash m) i node) = Some node"
proof -
  from assms have "i \<in> set [0..replicas m - 1]" by simp
  then have "vnode (hash m) i node \<in> (\<lambda>i. vnode (hash m) i node) ` set [0..replicas m - 1]"
    by (rule imageI)
  then show ?thesis by (simp only: add_node_hashMap if_True)
qed

lemma add_node_other:
  assumes "\<forall>i. 0 \<le> i \<and> i < replicas m \<longrightarrow> k \<noteq> vnode (hash m) i node"
  shows "hashMap (add_node m node) k = hashMap m k"
proof -
  have "k \<notin> (\<lambda>i. vnode (hash m) i node) ` set [0..replicas m - 1]"
  proof
    assume "k \<in> (\<lambda>i. vnode (hash m) i node) ` set [0..replicas m - 1]"
    then obtain i where "i \<in> set [0..replicas m - 1]" "k = vnode (hash m) i node" by blast
    then have "0 \<le> i \<and> i < replicas m" "k = vnode (hash m) i node" by simp_all
    with assms show False by blast
  qed
  then show ?thesis by (simp only: add_node_hashMap if_False)
qed

lemma vnodes_insert:
  "vnodes h r (insert node S) = vnodes h r S \<union> {vnode h i node | i. 0 \<le> i \<and> i < r}"
  unfolding vnodes_def by blast

lemma vnodes_empty: "vnodes h r {} = {}"
  unfolding vnodes_def by blast

lemma ring_unsorted_add_node:
  assumes "ring_unsorted h r S m"
  shows "ring_unsorted h r (insert node S) (add_node m node)"
proof -
  from assms have h: "hash m = h" and r: "replicas m = r"
    and ks: "set (keys m) = vnodes h r S" and dm: "dom (hashMap m) = vnodes h r S"
    and snd: "\<And>k n. hashMap m k = Some n \<Longrightarrow> n \<in> S \<and> (\<exists>i. 0 \<le> i \<and> i < r \<and> k = vnode h i n)"
    unfolding ring_unsorted_def by blast+
  note f = add_node_fields [of m node, unfolded h r]
  note hit = add_node_vnode [of _ m node, unfolded h r]
  note miss = add_node_other [of m _ node, unfolded h r]
  have "set (map (\<lambda>i. vnode h i node) [0..r - 1]) = {vnode h i node | i. 0 \<le> i \<and> i < r}"
    by auto
  then have k': "set (keys (add_node m node)) = vnodes h r (insert node S)"
    unfolding f(3) vnodes_insert using ks by simp
  have d': "dom (hashMap (add_node m node)) = vnodes h r (insert node S)"
  proof (rule set_eqI)
    fix k
    show "k \<in> dom (hashMap (add_node m node)) \<longleftrightarrow> k \<in> vnodes h r (insert node S)"
    proof (cases "\<exists>i. 0 \<le> i \<and> i < r \<and> k = vnode h i node")
      case True
      then obtain i where i: "0 \<le> i" "i < r" "k = vnode h i node" by blast
      from hit [OF i(1,2)] i(3) have "hashMap (add_node m node) k = Some node" by simp
      then have "k \<in> dom (hashMap (add_node m node))" by (simp add: dom_def)
      moreover from True have "k \<in> {vnode h i node | i. 0 \<le> i \<and> i < r}" by blast
      ultimately show ?thesis unfolding vnodes_insert by blast
    next
      case False
      then have "\<forall>i. 0 \<le> i \<and> i < r \<longrightarrow> k \<noteq> vnode h i node" by blast
      from miss [OF this] have "hashMap (add_node m node) k = hashMap m k" .
      then have "k \<in> dom (hashMap (add_node m node)) \<longleftrightarrow> k \<in> dom (hashMap m)"
        by (simp add: dom_def)
      moreover from False have "k \<notin> {vnode h i node | i. 0 \<le> i \<and> i < r}" by blast
      ultimately show ?thesis unfolding vnodes_insert using dm by blast
    qed
  qed
  have s': "n \<in> insert node S \<and> (\<exists>i. 0 \<le> i \<and> i < r \<and> k = vnode h i n)"
    if st: "hashMap (add_node m node) k = Some n" for k n
  proof (cases "\<exists>i. 0 \<le> i \<and> i < r \<and> k = vnode h i node")
    case True
    then obtain i where i: "0 \<le> i" "i < r" "k = vnode h i node" by blast
    from hit [OF i(1,2)] i(3) st have "n = node" by simp
    with True show ?thesis by blast
  next
    case False
    then have "\<forall>i. 0 \<le> i \<and> i < r \<longrightarrow> k \<noteq> vnode h i node" by blast
    from miss [OF this] st have "hashMap m k = Some n" by simp
    from snd [OF this] show ?thesis by blast
  qed
  from f(1,2) k' d' s' show ?thesis unfolding ring_unsorted_def by blast
qed

lemma ring_unsorted_foldl:
  "ring_unsorted h r S m \<Longrightarrow> ring_unsorted h r (S \<union> set nodes) (foldl add_node m nodes)"
proof (induction nodes arbitrary: m S)
  case Nil
  then show ?case by simp
next
  case (Cons a nodes)
  from Cons.IH [OF ring_unsorted_add_node [OF Cons.prems, of a]]
  show ?case by simp
qed

lemma ring_of_Add:
  assumes "ring_of h r S m"
  shows "ring_of h r (S \<union> set nodes) (ch_Add m nodes)"
proof -
  from assms have "ring_unsorted h r S m"
    unfolding ring_of_def ring_unsorted_def by blast
  from ring_unsorted_foldl [OF this, of nodes]
  have "ring_unsorted h r (S \<union> set nodes) (foldl add_node m nodes)" .
  then show ?thesis
    unfolding ring_of_def ring_unsorted_def ch_Add_def Let_def by simp
qed

lemma ring_of_New:
  "ring_of (case fn of None \<Rightarrow> crc | Some f \<Rightarrow> f) r {} (ch_New crc r fn)"
  unfolding ring_of_def by (simp add: ch_New_def vnodes_empty)

lemma ring_of_foldl:
  "ring_of h r S m \<Longrightarrow> ring_of h r (S \<union> set (concat adds)) (foldl ch_Add m adds)"
proof (induction adds arbitrary: m S)
  case Nil
  then show ?case by simp
next
  case (Cons a adds)
  from Cons.IH [OF ring_of_Add [OF Cons.prems, of a]]
  show ?case by (simp add: Un_assoc)
qed

lemma ring_of_build:
  "ring_of (case fn of None \<Rightarrow> crc | Some f \<Rightarrow> f) r (set (concat adds)) (ch_build crc r fn adds)"
  using ring_of_foldl [OF ring_of_New, of crc fn r adds] by (simp add: ch_build_def)

lemma ring_of_hashMap_unique:
  assumes m1: "ring_of h r S m1" and m2: "ring_of h r S m2"
    and nocoll: "\<forall>a\<in>S. \<forall>b\<in>S. \<forall>i j. 0 \<le> i \<and> i < r \<and> 0 \<le> j \<and> j < r \<and>
                   vnode h i a = vnode h j b \<longrightarrow> a = b"
  shows "hashMap m1 = hashMap m2"
proof (rule ext)
  fix k
  from m1 have d1: "dom (hashMap m1) = vnodes h r S"
    and s1: "\<And>n. hashMap m1 k = Some n \<Longrightarrow> n \<in> S \<and> (\<exists>i. 0 \<le> i \<and> i < r \<and> k = vnode h i n)"
    unfolding ring_of_def by blast+
  from m2 have d2: "dom (hashMap m2) = vnodes h r S"
    and s2: "\<And>n. hashMap m2 k = Some n \<Longrightarrow> n \<in> S \<and> (\<exists>i. 0 \<le> i \<and> i < r \<and> k = vnode h i n)"
    unfolding ring_of_def by blast+
  show "hashMap m1 k = hashMap m2 k"
  proof (cases "hashMap m1 k")
    case None
    then have "k \<notin> dom (hashMap m1)" by (simp add: dom_def)
    with d1 d2 have "k \<notin> dom (hashMap m2)" by simp
    then have "hashMap m2 k = None" by (simp add: dom_def)
    with None show ?thesis by simp
  next
    case (Some a)
    then have "k \<in> dom (hashMap m1)" by (simp add: dom_def)
    with d1 d2 have "k \<in> dom (hashMap m2)" by simp
    then obtain b where b: "hashMap m2 k = Some b" by (auto simp: dom_def)
    from s1 [OF Some] obtain i where a1: "a \<in> S" "0 \<le> i" "i < r" "k = vnode h i a" by blast
    from s2 [OF b] obtain j where b1: "b \<in> S" "0 \<le> j" "j < r" "k = vnode h j b" by blast
    from a1(4) b1(4) have "vnode h i a = vnode h j b" by simp
    with nocoll a1(1-3) b1(1-3) have "a = b" by blast
    with Some b show ?thesis by simp
  qed
qed

lemma ring_of_Get_eq:
  assumes m1: "ring_of h r S m1" and m2: "ring_of h r S m2"
    and nocoll: "\<forall>a\<in>S. \<forall>b\<in>S. \<forall>i j. 0 \<le> i \<and> i < r \<and> 0 \<le> j \<and> j < r \<and>
                   vnode h i a = vnode h j b \<longrightarrow> a = b"
  shows "ch_Get m1 k = ch_Get m2 k"
proof -
  from m1 have a1: "hash m1 = h" "sorted (keys m1)" "set (keys m1) = vnodes h r S"
    unfolding ring_of_def by blast+
  from m2 have a2: "hash m2 = h" "sorted (keys m2)" "set (keys m2) = vnodes h r S"
    unfolding ring_of_def by blast+
  have hm: "hashMap m1 = hashMap m2" using m1 m2 nocoll by (rule ring_of_hashMap_unique)
  show ?thesis
  proof (cases "keys m1 = []")
    case True
    with a1(3) a2(3) have "keys m2 = []" by (metis set_empty)
    with True show ?thesis by (simp add: ch_Get_def)
  next
    case False
    with a1(3) a2(3) have ne2: "keys m2 \<noteq> []" by (metis set_empty)
    from ch_Get_succ_key [OF a1(2) False, of k] ch_Get_succ_key [OF a2(2) ne2, of k]
    show ?thesis by (simp add: a1 a2 hm)
  qed
qed

lemma ring_of_lookup:
  assumes "ring_of h r S m" "i < length (keys m)"
  shows "\<exists>node. hashMap m (keys m ! i) = Some node"
proof -
  from assms(1) have "set (keys m) = dom (hashMap m)" unfolding ring_of_def by simp
  with nth_mem [OF assms(2)] have "keys m ! i \<in> dom (hashMap m)" by simp
  then show ?thesis by (simp add: dom_def)
qed

text \<open>
  Claim C4 (placement). On every ring built by \<open>New\<close> and \<open>Add\<close> calls the slice of
  virtual-node hashes is sorted; \<open>Get\<close> on an empty ring is the empty string; on a
  non-empty ring it is the node mapped from \<open>keys[i]\<close>, where \<open>i\<close> is the smallest index
  with \<open>keys[i] \<ge> hash(key)\<close>, or index 0 when no hash is that large. With 3 replicas
  and the decimal hash, after \<open>Add("6", "4", "2")\<close> the hashes are
  \<open>2, 4, 6, 12, 14, 16, 22, 24, 26\<close> and the keys \<open>"2"\<close>, \<open>"11"\<close>, \<open>"23"\<close>, \<open>"27"\<close> go to
  \<open>"2"\<close>, \<open>"2"\<close>, \<open>"4"\<close>, \<open>"2"\<close>; after \<open>Add("8")\<close> the key \<open>"27"\<close> goes to \<open>"8"\<close> and the
  others stay.
\<close>

theorem ch_Get_placement:
  assumes m: "m = ch_build crc r fn adds"
  shows "sorted (keys m) \<and>
         (keys m = [] \<longrightarrow> ch_Get m k = '''') \<and>
         (keys m \<noteq> [] \<longrightarrow>
            (\<exists>i. i < length (keys m) \<and> hashMap m (keys m ! i) = Some (ch_Get m k) \<and>
               (if \<exists>y\<in>set (keys m). uint (hash m k) \<le> y
                then uint (hash m k) \<le> keys m ! i \<and>
                     (\<forall>j. j < i \<longrightarrow> keys m ! j < uint (hash m k))
                else i = 0))) \<and>
         keys (ch_build crc 3 (Some test_hash) [[''6'', ''4'', ''2'']]) =
           [2, 4, 6, 12, 14, 16, 22, 24, 26] \<and>
         map (ch_Get (ch_build crc 3 (Some test_hash) [[''6'', ''4'', ''2'']]))
           [''2'', ''11'', ''23'', ''27''] = [''2'', ''2'', ''4'', ''2''] \<and>
         map (ch_Get (ch_build crc 3 (Some test_hash) [[''6'', ''4'', ''2''], [''8'']]))
           [''2'', ''11'', ''23'', ''27''] = [''2'', ''2'', ''4'', ''8'']"
proof (intro conjI impI)
  let ?h = "case fn of None \<Rightarrow> crc | Some f \<Rightarrow> f"
  have ring: "ring_of ?h r (set (concat adds)) m" unfolding m by (rule ring_of_build)
  then show srt: "sorted (keys m)" unfolding ring_of_def by blast
  {
    assume "keys m = []"
    then show "ch_Get m k = ''''" by (simp add: ch_Get_def)
  }
  {
    assume ne: "keys m \<noteq> []"
    from ch_Get_index [OF srt ne, of k] obtain i where i: "i < length (keys m)"
      "ch_Get m k = (case hashMap m (keys m ! i) of None \<Rightarrow> '''' | Some node \<Rightarrow> node)"
      "if \<exists>y\<in>set (keys m). uint (hash m k) \<le> y
       then uint (hash m k) \<le> keys m ! i \<and> (\<forall>j. j < i \<longrightarrow> keys m ! j < uint (hash m k))
       else i = 0"
      by blast
    from ring_of_lookup [OF ring i(1)] obtain node
      where "hashMap m (keys m ! i) = Some node" by blast
    with i(2) have "hashMap m (keys m ! i) = Some (ch_Get m k)" by simp
    with i(1,3)
    show "\<exists>i. i < length (keys m) \<and> hashMap m (keys m ! i) = Some (ch_Get m k) \<and>
               (if \<exists>y\<in>set (keys m). uint (hash m k) \<le> y
                then uint (hash m k) \<le> keys m ! i \<and>
                     (\<forall>j. j < i \<longrightarrow> keys m ! j < uint (hash m k))
                else i = 0)"
      by blast
  }
  show "keys (ch_build crc 3 (Some test_hash) [[''6'', ''4'', ''2'']]) =
           [2, 4, 6, 12, 14, 16, 22, 24, 26]"
    by (simp add: ch_build_def ch_Add_def ch_New_def add_node_def add_replica_def upto.simps
        Itoa_def Itoa_nat.simps test_hash_def Atoi_def digit_of_def Let_def)
  show "map (ch_Get (ch_build crc 3 (Some test_hash) [[''6'', ''4'', ''2'']]))
           [''2'', ''11'', ''23'', ''27''] = [''2'', ''2'', ''4'', ''2'']"
    by (simp add: ch_build_def ch_Add_def ch_New_def add_node_def add_replica_def upto.simps
        Itoa_def Itoa_nat.simps test_hash_def Atoi_def digit_of_def Let_def ch_Get_def
        Search_def search_loop.simps)
  show "map (ch_Get (ch_build crc 3 (Some test_hash) [[''6'', ''4'', ''2''], [''8'']]))
           [''2'', ''11'', ''23'', ''27''] = [''2'', ''2'', ''4'', ''8'']"
    by (simp add: ch_build_def ch_Add_def ch_New_def add_node_def add_replica_def upto.simps
        Itoa_def Itoa_nat.simps test_hash_def Atoi_def digit_of_def Let_def ch_Get_def
        Search_def search_loop.simps)
qed

theorem ch_Get_placement_witness:
  "keys (ch_build (\<lambda>data. 0) 3 (Some test_hash) [[''6'', ''4'', ''2'']]) \<noteq> [] \<and>
   hashMap (ch_build (\<lambda>data. 0) 3 (Some test_hash) [[''6'', ''4'', ''2'']])
     (keys (ch_build (\<lambda>data. 0) 3 (Some test_hash) [[''6'', ''4'', ''2'']]) ! 0) =
   Some (ch_Get (ch_build (\<lambda>data. 0) 3 (Some test_hash) [[''6'', ''4'', ''2'']]) ''27'')"
proof -
  let ?m = "ch_build (\<lambda>data. 0) 3 (Some test_hash) [[''6'', ''4'', ''2'']]"
  note t = ch_Get_placement [where m = ?m and crc = "\<lambda>data. 0" and r = 3
      and fn = "Some test_hash" and adds = "[[''6'', ''4'', ''2'']]" and k = "''27''", OF refl]
  from t have ks: "keys ?m = [2, 4, 6, 12, 14, 16, 22, 24, 26]" by blast
  then have ne: "keys ?m \<noteq> []" by simp
  have hk: "uint (hash ?m ''27'') = 27"
    by (simp add: ch_build_def ch_Add_def ch_New_def add_node_def add_replica_def upto.simps
        test_hash_def Atoi_def digit_of_def Let_def)
  have none: "\<not> (\<exists>y\<in>set (keys ?m). uint (hash ?m ''27'') \<le> y)"
    unfolding ks hk by simp
  from t ne obtain i where i: "hashMap ?m (keys ?m ! i) = Some (ch_Get ?m ''27'')"
    "if \<exists>y\<in>set (keys ?m). uint (hash ?m ''27'') \<le> y
     then uint (hash ?m ''27'') \<le> keys ?m ! i \<and>
          (\<forall>j. j < i \<longrightarrow> keys ?m ! j < uint (hash ?m ''27''))
     else i = 0"
    by blast
  from i(2) none have "i = 0" by (simp only: if_False)
  with i(1) have "hashMap ?m (keys ?m ! 0) = Some (ch_Get ?m ''27'')" by simp
  with ne show ?thesis by (rule conjI)
qed


text \<open>
  Claim C7 (ring determinism), as the code has it. Two rings built with the same
  \<open>replicas\<close> and hash function from \<open>Add\<close> calls that add the same set of node ids,
  in any order and in any grouping into calls, place every key on the same node,
  provided no two distinct node ids of the set have a virtual-node hash in common.
  (Where two nodes collide, \<open>hashMap\<close> keeps the node written last, and the owner of
  that hash depends on the order.)
\<close>

theorem ch_Get_order_insensitive:
  assumes same: "set (concat adds1) = set (concat adds2)"
    and nocoll: "\<forall>a\<in>set (concat adds1). \<forall>b\<in>set (concat adds1). \<forall>i j.
                   0 \<le> i \<and> i < r \<and> 0 \<le> j \<and> j < r \<and>
                   hash (ch_New crc r fn) (Itoa i @ a) = hash (ch_New crc r fn) (Itoa j @ b)
                   \<longrightarrow> a = b"
  shows "ch_Get (ch_build crc r fn adds1) k = ch_Get (ch_build crc r fn adds2) k"
proof -
  let ?h = "case fn of None \<Rightarrow> crc | Some f \<Rightarrow> f"
  have h: "hash (ch_New crc r fn) = ?h" by (simp add: ch_New_def)
  have m1: "ring_of ?h r (set (concat adds1)) (ch_build crc r fn adds1)"
    by (rule ring_of_build)
  have m2: "ring_of ?h r (set (concat adds1)) (ch_build crc r fn adds2)"
    unfolding same by (rule ring_of_build)
  have nc: "\<forall>a\<in>set (concat adds1). \<forall>b\<in>set (concat adds1). \<forall>i j.
      0 \<le> i \<and> i < r \<and> 0 \<le> j \<and> j < r \<and> vnode ?h i a = vnode ?h j b \<longrightarrow> a = b"
  proof (intro ballI allI impI)
    fix a b i j
    assume a: "a \<in> set (concat adds1)" and b: "b \<in> set (concat adds1)"
      and ij: "0 \<le> i \<and> i < r \<and> 0 \<le> j \<and> j < r \<and> vnode ?h i a = vnode ?h j b"
    then have "uint (?h (Itoa i @ a)) = uint (?h (Itoa j @ b))" by (simp add: vnode_def)
    then have "?h (Itoa i @ a) = ?h (Itoa j @ b)" by (simp only: word_uint_eq_iff)
    with nocoll a b ij show "a = b" unfolding h by blast
  qed
  from m1 m2 nc show ?thesis by (rule ring_of_Get_eq)
qed

theorem ch_Get_order_insensitive_witness:
  "set (concat [[''6'', ''4'', ''2'']]) = set (concat [[''2''], [''4'', ''6'']]) \<and>
   ch_Get (ch_build (\<lambda>data. 0) 3 (Some test_hash) [[''6'', ''4'', ''2'']]) ''23'' =
   ch_Get (ch_build (\<lambda>data. 0) 3 (Some test_hash) [[''2''], [''4'', ''6'']]) ''23''"
proof -
  have same: "set (concat [[''6'', ''4'', ''2'']]) = set (concat [[''2''], [''4'', ''6'']])"
    by auto
  have val: "uint (test_hash (Itoa i @ a)) = 10 * i + Atoi a"
    if "0 \<le> i \<and> i < 3" "a \<in> set (concat [[''6'', ''4'', ''2'']])" for i a
  proof -
    from that(1) have "i = 0 \<or> i = 1 \<or> i = 2" by linarith
    moreover from that(2) have "a = ''6'' \<or> a = ''4'' \<or> a = ''2''" by simp
    ultimately show ?thesis
      by (elim disjE) (simp_all add: Itoa_def Itoa_nat.simps test_hash_def Atoi_def digit_of_def)
  qed
  have nocoll: "\<forall>a\<in>set (concat [[''6'', ''4'', ''2'']]).
      \<forall>b\<in>set (concat [[''6'', ''4'', ''2'']]). \<forall>i j.
        0 \<le> i \<and> i < 3 \<and> 0 \<le> j \<and> j < 3 \<and>
        hash (ch_New (\<lambda>data. 0) 3 (Some test_hash)) (Itoa i @ a) =
        hash (ch_New (\<lambda>data. 0) 3 (Some test_hash)) (Itoa j @ b)
        \<longrightarrow> a = b"
  proof (intro ballI allI impI)
    fix a b i j
    assume a: "a \<in> set (concat [[''6'', ''4'', ''2'']])"
      and b: "b \<in> set (concat [[''6'', ''4'', ''2'']])"
      and ij: "0 \<le> i \<and> i < 3 \<and> 0 \<le> j \<and> j < 3 \<and>
        hash (ch_New (\<lambda>data. 0) 3 (Some test_hash)) (Itoa i @ a) =
        hash (ch_New (\<lambda>data. 0) 3 (Some test_hash)) (Itoa j @ b)"
    then have i: "0 \<le> i \<and> i < 3" and j: "0 \<le> j \<and> j < 3"
      and eq: "test_hash (Itoa i @ a) = test_hash (Itoa j @ b)"
      by (simp_all add: ch_New_def)
    from eq have "uint (test_hash (Itoa i @ a)) = uint (test_hash (Itoa j @ b))"
      by (rule arg_cong)
    then have e: "10 * i + Atoi a = 10 * j + Atoi b"
      by (simp only: val [OF i a] val [OF j b])
    have dec: "0 \<le> Atoi x \<and> Atoi x < 10 \<and>
               x = (if Atoi x = 6 then ''6'' else if Atoi x = 4 then ''4'' else ''2'')"
      if "x \<in> set (concat [[''6'', ''4'', ''2'']])" for x
      using that by (auto simp: Atoi_def digit_of_def)
    from dec [OF a] have ra: "0 \<le> Atoi a \<and> Atoi a < 10"
      and fa: "a = (if Atoi a = 6 then ''6'' else if Atoi a = 4 then ''4'' else ''2'')"
      by blast+
    from dec [OF b] have rb: "0 \<le> Atoi b \<and> Atoi b < 10"
      and fb: "b = (if Atoi b = 6 then ''6'' else if Atoi b = 4 then ''4'' else ''2'')"
      by blast+
    from ra rb e have ab: "Atoi a = Atoi b" by presburger
    note fa
    also have "(if Atoi a = 6 then ''6'' else if Atoi a = 4 then ''4'' else ''2'') =
               (if Atoi b = 6 then ''6'' else if Atoi b = 4 then ''4'' else ''2'')"
      by (simp only: ab)
    also note fb [symmetric]
    finally show "a = b" .
  qed
  from ch_Get_order_insensitive
    [where ?adds1.0 = "[[''6'', ''4'', ''2'']]" and ?adds2.0 = "[[''2''], [''4'', ''6'']]"
       and r = 3 and crc = "\<lambda>data. 0" and fn = "Some test_hash" and k = "''23''",
     OF same nocoll]
  have "ch_Get (ch_build (\<lambda>data. 0) 3 (Some test_hash) [[''6'', ''4'', ''2'']]) ''23'' =
        ch_Get (ch_build (\<lambda>data. 0) 3 (Some test_hash) [[''2''], [''4'', ''6'']]) ''23''" .
  with same show ?thesis by (rule conjI)
qed


text \<open>
  Claim C7 as stated holds for every hash function. With the decimal hash and one
  replica, the nodes \<open>"1"\<close> and \<open>"01"\<close> have the virtual nodes \<open>"01"\<close> and \<open>"001"\<close>, both
  of hash 1: added as \<open>"1", "01"\<close> the key \<open>"1"\<close> goes to \<open>"01"\<close>, added as \<open>"01", "1"\<close> it
  goes to \<open>"1"\<close>.
\<close>

theorem ch_Get_order_insensitive_counterexample:
  "ch_Get (ch_build (\<lambda>data. 0) 1 (Some test_hash) [[''1'', ''01'']]) ''1'' = ''01'' \<and>
   ch_Get (ch_build (\<lambda>data. 0) 1 (Some test_hash) [[''01'', ''1'']]) ''1'' = ''1''"
  by (simp add: ch_build_def ch_Add_def ch_New_def add_node_def add_replica_def upto.simps
      Itoa_def Itoa_nat.simps test_hash_def Atoi_def digit_of_def Let_def ch_Get_def Search_def
      search_loop.simps)


section \<open>Properties of the group pipeline\<close>

lemma shell_inv_new: "shell_inv \<lparr>lru = None, cacheBytes = cb\<rparr>"
  by (simp add: shell_inv_def)

lemma maxBytes_New: "maxBytes (lru_New m cb) = m"
  by (simp add: lru_New_def)

lemma shell_engine:
  assumes "shell_inv s"
  shows "lru_inv ByteView_Len (case lru s of None \<Rightarrow> lru_New (cacheBytes s) None | Some l \<Rightarrow> l)"
    and "maxBytes (case lru s of None \<Rightarrow> lru_New (cacheBytes s) None | Some l \<Rightarrow> l) =
         cacheBytes s"
proof -
  show "lru_inv ByteView_Len (case lru s of None \<Rightarrow> lru_New (cacheBytes s) None | Some l \<Rightarrow> l)"
  proof (cases "lru s")
    case None
    then show ?thesis by (simp add: lru_inv_New)
  next
    case (Some l)
    with assms show ?thesis by (simp add: shell_inv_def)
  qed
  show "maxBytes (case lru s of None \<Rightarrow> lru_New (cacheBytes s) None | Some l \<Rightarrow> l) =
         cacheBytes s"
  proof (cases "lru s")
    case None
    then show ?thesis by (simp add: maxBytes_New)
  next
    case (Some l)
    with assms show ?thesis by (simp add: shell_inv_def)
  qed
qed

lemma cache_add_inv:
  assumes "shell_inv s" "cache_add s k v = Some s'"
  shows "shell_inv s' \<and> cacheBytes s' = cacheBytes s"
proof -
  let ?l = "case lru s of None \<Rightarrow> lru_New (cacheBytes s) None | Some l \<Rightarrow> l"
  note l = shell_engine [OF assms(1)]
  from assms(2) obtain l' u where a: "lru_Add ByteView_Len k v (?l, ()) = Some (l', u)"
    and s': "s' = s\<lparr>lru := Some l'\<rparr>"
    by (auto simp: cache_add_def Let_def split: option.splits)
  from lru_Add_partial [OF l(1) a] l(2) s' show ?thesis by (simp add: shell_inv_def)
qed

lemma cache_get_inv:
  assumes "shell_inv s"
  shows "shell_inv (snd (cache_get s k)) \<and> cacheBytes (snd (cache_get s k)) = cacheBytes s"
proof (cases "lru s")
  case None
  with assms show ?thesis by (simp add: cache_get_def)
next
  case (Some l)
  with assms have l: "lru_inv ByteView_Len l" "maxBytes l = cacheBytes s"
    by (simp_all add: shell_inv_def)
  obtain r l' where g: "lru_Get k l = (r, l')" by (cases "lru_Get k l")
  from lru_Get_state [OF l(1), of k] g l(2)
  have "lru_inv ByteView_Len l'" "maxBytes l' = cacheBytes s" by simp_all
  then show ?thesis
    by (cases r) (simp_all add: cache_get_def Some g shell_inv_def)
qed

lemma cache_add_returns:
  assumes inv: "shell_inv s" and cb: "0 \<le> cacheBytes s"
  shows "\<exists>s'. cache_add s k v = Some s' \<and>
           (cacheBytes s = 0 \<or> int (length k) + int (ByteView_Len v) \<le> cacheBytes s \<longrightarrow>
              fst (cache_get s' k) = Some v)"
proof -
  let ?l = "case lru s of None \<Rightarrow> lru_New (cacheBytes s) None | Some l \<Rightarrow> l"
  note l = shell_engine [OF inv]
  from lru_Add_returns [OF l(1), of k v "()"] cb l(2) obtain l' u n where a:
    "lru_Add ByteView_Len k v (?l, ()) = Some (l', u)" "lru_inv ByteView_Len l'"
    "ll l' = take n ((k, v) # filter (\<lambda>x. fst x \<noteq> k) (ll ?l))"
    "0 < n \<longleftrightarrow> maxBytes ?l = 0 \<or> entry_size ByteView_Len (k, v) \<le> maxBytes ?l"
    by auto
  let ?s' = "s\<lparr>lru := Some l'\<rparr>"
  have add: "cache_add s k v = Some ?s'" using a(1) by (simp add: cache_add_def Let_def)
  have "fst (cache_get ?s' k) = Some v"
    if fits: "cacheBytes s = 0 \<or> int (length k) + int (ByteView_Len v) \<le> cacheBytes s"
  proof -
    from fits a(4) l(2) have "0 < n" by (simp add: entry_size_pair)
    then obtain i where "n = Suc i" by (cases n) auto
    with a(3) have "(k, v) \<in> set (ll l')" by simp
    moreover from a(2) have "cache l' k = Some (k, v) \<longleftrightarrow> (k, v) \<in> set (ll l') \<and> fst (k, v) = k"
      unfolding lru_inv_def by blast
    ultimately have "cache l' k = Some (k, v)" by simp
    then show ?thesis by (simp add: cache_get_def lru_Get_def)
  qed
  with add show ?thesis by blast
qed

lemma getLocally_ok:
  assumes "getter g k w = (Inr bytes, w')"
  shows "getLocally g k w =
           (case cache_add (mainCache g) k (ByteView bytes) of
              None \<Rightarrow> None
            | Some c \<Rightarrow> Some ((ByteView bytes, None), g\<lparr>mainCache := c\<rparr>, w'))"
  using assms by (simp add: getLocally_def populateCache_def cloneBytes_def Let_def
      split: option.splits)

lemma getLocally_err:
  assumes "getter g k w = (Inl err, w')"
  shows "getLocally g k w = Some ((ByteView [], Some err), g, w')"
  using assms by (simp add: getLocally_def)

lemma getLocally_changes:
  assumes "getLocally g k w = Some ((v, e), g', w')" "mainCache g' \<noteq> mainCache g"
  shows "e = None \<and> getter g k w = (Inr (ByteView_b v), w') \<and>
         cache_add (mainCache g) k v = Some (mainCache g')"
proof -
  obtain r w1 where gt: "getter g k w = (r, w1)" by (cases "getter g k w")
  show ?thesis
  proof (cases r)
    case (Inl err)
    with gt assms show ?thesis by (simp add: getLocally_def)
  next
    case (Inr bytes)
    with gt assms(1) show ?thesis
      by (auto simp: getLocally_def populateCache_def cloneBytes_def Let_def
          split: option.splits)
  qed
qed

lemma load_peer_ok:
  assumes "peers g = Some pp" "pp k w = (Some peer, w1)" "peer (name g) k w1 = (Inr bytes, w2)"
  shows "load g k w = Some ((ByteView bytes, None), g, w2)"
  using assms by (simp add: load_def getFromPeer_def)

lemma load_peer_err:
  assumes "peers g = Some pp" "pp k w = (Some peer, w1)" "peer (name g) k w1 = (Inl perr, w2)"
  shows "load g k w = getLocally g k w2"
  using assms by (simp add: load_def getFromPeer_def)

lemma load_no_peer:
  assumes "peers g = Some pp" "pp k w = (None, w1)"
  shows "load g k w = getLocally g k w1"
  using assms by (simp add: load_def)

lemma load_no_picker:
  assumes "peers g = None"
  shows "load g k w = getLocally g k w"
  using assms by (simp add: load_def)

lemma load_cases:
  "(\<exists>pp peer w1 bytes w2. peers g = Some pp \<and> pp k w = (Some peer, w1) \<and>
       peer (name g) k w1 = (Inr bytes, w2) \<and>
       load g k w = Some ((ByteView bytes, None), g, w2)) \<or>
   (\<exists>wa. load g k w = getLocally g k wa)"
proof (cases "peers g")
  case None
  from load_no_picker [OF None, of k w] show ?thesis by (intro disjI2 exI [of _ w])
next
  case pk: (Some pp)
  obtain p w1 where pw: "pp k w = (p, w1)" by (cases "pp k w")
  show ?thesis
  proof (cases p)
    case None
    with pw have "pp k w = (None, w1)" by simp
    from load_no_peer [OF pk this] show ?thesis by (intro disjI2 exI [of _ w1])
  next
    case (Some peer)
    with pw have pw': "pp k w = (Some peer, w1)" by simp
    obtain r w2 where pg: "peer (name g) k w1 = (r, w2)" by (cases "peer (name g) k w1")
    show ?thesis
    proof (cases r)
      case (Inl perr)
      with pg have "peer (name g) k w1 = (Inl perr, w2)" by simp
      from load_peer_err [OF pk pw' this] show ?thesis by (intro disjI2 exI [of _ w2])
    next
      case (Inr bytes)
      with pg have pg': "peer (name g) k w1 = (Inr bytes, w2)" by simp
      from load_peer_ok [OF pk pw' pg']
      have "peers g = Some pp \<and> pp k w = (Some peer, w1) \<and>
            peer (name g) k w1 = (Inr bytes, w2) \<and>
            load g k w = Some ((ByteView bytes, None), g, w2)"
        using pk pw' pg' by (intro conjI)
      then show ?thesis
        by (intro disjI1 exI [of _ pp] exI [of _ peer] exI [of _ w1] exI [of _ bytes]
            exI [of _ w2])
    qed
  qed
qed

text \<open>
  Claim C5 (what populates the cache). When the peer picker selects a peer and the
  fetch succeeds, \<open>load\<close> returns the fetched bytes and leaves the group, and so its
  cache shell, as it was. When the source loader succeeds, \<open>getLocally\<close> calls \<open>add\<close> on
  the shell with the key and the loaded value and returns that value; on a shell with
  capacity 0 or large enough for the entry, the next \<open>get\<close> of the key finds it.
  Whenever \<open>load\<close> returns with a changed shell, the loader has succeeded and the
  change is that \<open>add\<close>.
\<close>

theorem load_populates_only_locally:
  "(peers g = Some pp \<and> pp k w = (Some peer, w1) \<and> peer (name g) k w1 = (Inr bytes, w2) \<longrightarrow>
      load g k w = Some ((ByteView bytes, None), g, w2)) \<and>
   (getter g k w = (Inr bytes, w') \<longrightarrow>
      getLocally g k w =
        (case cache_add (mainCache g) k (ByteView bytes) of
           None \<Rightarrow> None
         | Some c \<Rightarrow> Some ((ByteView bytes, None), g\<lparr>mainCache := c\<rparr>, w'))) \<and>
   (getter g k w = (Inr bytes, w') \<and> shell_inv (mainCache g) \<and> 0 \<le> cacheBytes (mainCache g) \<longrightarrow>
      (\<exists>g'. getLocally g k w = Some ((ByteView bytes, None), g', w') \<and>
            (cacheBytes (mainCache g) = 0 \<or>
             int (length k) + int (length bytes) \<le> cacheBytes (mainCache g) \<longrightarrow>
               fst (cache_get (mainCache g') k) = Some (ByteView bytes)))) \<and>
   (\<forall>v e g' w''. load g k w = Some ((v, e), g', w'') \<and> mainCache g' \<noteq> mainCache g \<longrightarrow>
      e = None \<and> (\<exists>wa. getter g k wa = (Inr (ByteView_b v), w'')) \<and>
      cache_add (mainCache g) k v = Some (mainCache g'))"
proof -
  have c1: "peers g = Some pp \<and> pp k w = (Some peer, w1) \<and>
      peer (name g) k w1 = (Inr bytes, w2) \<longrightarrow>
      load g k w = Some ((ByteView bytes, None), g, w2)"
  proof
    assume "peers g = Some pp \<and> pp k w = (Some peer, w1) \<and>
      peer (name g) k w1 = (Inr bytes, w2)"
    then have "peers g = Some pp" "pp k w = (Some peer, w1)"
      "peer (name g) k w1 = (Inr bytes, w2)" by simp_all
    then show "load g k w = Some ((ByteView bytes, None), g, w2)" by (rule load_peer_ok)
  qed
  have c2: "getter g k w = (Inr bytes, w') \<longrightarrow>
      getLocally g k w =
        (case cache_add (mainCache g) k (ByteView bytes) of
           None \<Rightarrow> None
         | Some c \<Rightarrow> Some ((ByteView bytes, None), g\<lparr>mainCache := c\<rparr>, w'))"
    using getLocally_ok [of g k w bytes w'] by (rule impI)
  have c3: "getter g k w = (Inr bytes, w') \<and> shell_inv (mainCache g) \<and>
      0 \<le> cacheBytes (mainCache g) \<longrightarrow>
      (\<exists>g'. getLocally g k w = Some ((ByteView bytes, None), g', w') \<and>
            (cacheBytes (mainCache g) = 0 \<or>
             int (length k) + int (length bytes) \<le> cacheBytes (mainCache g) \<longrightarrow>
               fst (cache_get (mainCache g') k) = Some (ByteView bytes)))"
  proof
    assume a: "getter g k w = (Inr bytes, w') \<and> shell_inv (mainCache g) \<and>
               0 \<le> cacheBytes (mainCache g)"
    then have gt: "getter g k w = (Inr bytes, w')" and inv: "shell_inv (mainCache g)"
      and cb: "0 \<le> cacheBytes (mainCache g)" by simp_all
    from cache_add_returns [OF inv cb, of k "ByteView bytes"] obtain s' where s':
      "cache_add (mainCache g) k (ByteView bytes) = Some s'"
      "cacheBytes (mainCache g) = 0 \<or>
       int (length k) + int (ByteView_Len (ByteView bytes)) \<le> cacheBytes (mainCache g) \<longrightarrow>
         fst (cache_get s' k) = Some (ByteView bytes)"
      by blast
    from getLocally_ok [OF gt] s'(1)
    have "getLocally g k w = Some ((ByteView bytes, None), g\<lparr>mainCache := s'\<rparr>, w')" by simp
    moreover from s'(2) have "cacheBytes (mainCache g) = 0 \<or>
        int (length k) + int (length bytes) \<le> cacheBytes (mainCache g) \<longrightarrow>
          fst (cache_get (mainCache (g\<lparr>mainCache := s'\<rparr>)) k) = Some (ByteView bytes)"
      by (simp add: ByteView_Len_def)
    ultimately show "\<exists>g'. getLocally g k w = Some ((ByteView bytes, None), g', w') \<and>
              (cacheBytes (mainCache g) = 0 \<or>
               int (length k) + int (length bytes) \<le> cacheBytes (mainCache g) \<longrightarrow>
                 fst (cache_get (mainCache g') k) = Some (ByteView bytes))"
      by (intro exI [of _ "g\<lparr>mainCache := s'\<rparr>"] conjI)
  qed
  have c4: "\<forall>v e g' w''. load g k w = Some ((v, e), g', w'') \<and> mainCache g' \<noteq> mainCache g \<longrightarrow>
      e = None \<and> (\<exists>wa. getter g k wa = (Inr (ByteView_b v), w'')) \<and>
      cache_add (mainCache g) k v = Some (mainCache g')"
  proof (intro allI, rule impI)
    fix v e g' w''
    assume a: "load g k w = Some ((v, e), g', w'') \<and> mainCache g' \<noteq> mainCache g"
    then have ld: "load g k w = Some ((v, e), g', w'')" and ch: "mainCache g' \<noteq> mainCache g"
      by simp_all
    have "\<exists>wa. getLocally g k wa = Some ((v, e), g', w'')"
      using load_cases [of g k w]
    proof (elim disjE exE conjE)
      fix pp peer w1 bytes w2
      assume "load g k w = Some ((ByteView bytes, None), g, w2)"
      with ld have "g' = g" by simp
      with ch show ?thesis by simp
    next
      fix wa assume "load g k w = getLocally g k wa"
      with ld have "getLocally g k wa = Some ((v, e), g', w'')" by simp
      then show ?thesis by (rule exI)
    qed
    then obtain wa where "getLocally g k wa = Some ((v, e), g', w'')" by (elim exE)
    from getLocally_changes [OF this ch]
    have "e = None" "getter g k wa = (Inr (ByteView_b v), w'')"
      "cache_add (mainCache g) k v = Some (mainCache g')" by simp_all
    then show "e = None \<and> (\<exists>wa. getter g k wa = (Inr (ByteView_b v), w'')) \<and>
        cache_add (mainCache g) k v = Some (mainCache g')"
      by (intro conjI exI [of _ wa])
  qed
  show ?thesis by (rule conjI [OF c1 conjI [OF c2 conjI [OF c3 c4]]])
qed

theorem load_populates_only_locally_witness:
  "load (scores\<lparr>peers := Some (\<lambda>k w. (Some peer_ok, w))\<rparr>) ''Tom'' () =
     Some ((ByteView ''589'', None), scores\<lparr>peers := Some (\<lambda>k w. (Some peer_ok, w))\<rparr>, ()) \<and>
   getter scores ''Tom'' () = (Inr ''630'', ()) \<and> shell_inv (mainCache scores) \<and>
   0 \<le> cacheBytes (mainCache scores) \<and>
   (\<exists>g'. getLocally scores ''Tom'' () = Some ((ByteView ''630'', None), g', ()) \<and>
         fst (cache_get (mainCache g') ''Tom'') = Some (ByteView ''630''))"
proof -
  let ?pp = "\<lambda>(k::string) (w::unit). (Some peer_ok, w)"
  let ?g = "scores\<lparr>peers := Some ?pp\<rparr>"
  have h1: "peers ?g = Some ?pp \<and> ?pp ''Tom'' () = (Some peer_ok, ()) \<and>
            peer_ok (name ?g) ''Tom'' () = (Inr ''589'', ())"
    by (simp add: peer_ok_def)
  note t1 = load_populates_only_locally [where g = ?g and pp = ?pp and k = "''Tom''"
      and w = "()" and peer = peer_ok and ?w1.0 = "()" and bytes = "''589''" and ?w2.0 = "()"
      and w' = "()"]
  from t1 [THEN conjunct1, THEN mp, OF h1]
  have a: "load ?g ''Tom'' () = Some ((ByteView ''589'', None), ?g, ())" .
  have gt: "getter scores ''Tom'' () = (Inr ''630'', ())"
    by (simp add: scores_def db_getter_def db_def)
  have inv: "shell_inv (mainCache scores)" by (simp add: scores_def shell_inv_def)
  have cb: "0 \<le> cacheBytes (mainCache scores)" by (simp add: scores_def)
  have fits: "cacheBytes (mainCache scores) = 0 \<or>
      int (length ''Tom'') + int (length ''630'') \<le> cacheBytes (mainCache scores)"
    by (simp add: scores_def)
  note t2 = load_populates_only_locally [where g = scores and k = "''Tom''"
      and w = "()" and bytes = "''630''" and w' = "()" and pp = ?pp and peer = peer_ok
      and ?w1.0 = "()" and ?w2.0 = "()"]
  have h2: "getter scores ''Tom'' () = (Inr ''630'', ()) \<and> shell_inv (mainCache scores) \<and>
      0 \<le> cacheBytes (mainCache scores)"
    using gt inv cb by (intro conjI)
  from t2 [THEN conjunct2, THEN conjunct2, THEN conjunct1, THEN mp, OF h2]
  obtain g' where g':
    "getLocally scores ''Tom'' () = Some ((ByteView ''630'', None), g', ())"
    "cacheBytes (mainCache scores) = 0 \<or>
     int (length ''Tom'') + int (length ''630'') \<le> cacheBytes (mainCache scores) \<longrightarrow>
       fst (cache_get (mainCache g') ''Tom'') = Some (ByteView ''630'')"
    by (elim exE conjE) (rule that; assumption)
  from g'(2) fits have "fst (cache_get (mainCache g') ''Tom'') = Some (ByteView ''630'')" ..
  with g'(1) have b: "\<exists>g'. getLocally scores ''Tom'' () = Some ((ByteView ''630'', None), g', ()) \<and>
         fst (cache_get (mainCache g') ''Tom'') = Some (ByteView ''630'')"
    by (intro exI [of _ g'] conjI)
  show ?thesis by (rule conjI [OF a conjI [OF gt conjI [OF inv conjI [OF cb b]]]])
qed

text \<open>
  Claim C6 (fallback and errors). When the peer picker selects a peer and the fetch
  fails, when it selects none, and when no picker is registered, \<open>load\<close> is the call of
  \<open>getLocally\<close>, which invokes the source loader. After a failed fetch the result of
  \<open>load\<close> is the loader's: its value without an error when it succeeds, and its own
  error when it fails, so the peer's error reaches the caller in neither case. A
  loader error is returned as it is, with the zero byte view, and leaves the group and
  its cache as they were; \<open>Get\<close> hands it to its caller unchanged.
\<close>

theorem load_falls_back_to_loader:
  "(peers g = Some pp \<and> pp k w = (Some peer, w1) \<and> peer (name g) k w1 = (Inl perr, w2) \<longrightarrow>
      load g k w = getLocally g k w2) \<and>
   (peers g = Some pp \<and> pp k w = (None, w1) \<longrightarrow> load g k w = getLocally g k w1) \<and>
   (peers g = None \<longrightarrow> load g k w = getLocally g k w) \<and>
   (peers g = Some pp \<and> pp k w = (Some peer, w1) \<and> peer (name g) k w1 = (Inl perr, w2) \<and>
    getter g k w2 = (Inr bytes, w3) \<longrightarrow>
      (\<forall>r. load g k w = Some r \<longrightarrow> fst r = (ByteView bytes, None) \<and> snd (snd r) = w3)) \<and>
   (peers g = Some pp \<and> pp k w = (Some peer, w1) \<and> peer (name g) k w1 = (Inl perr, w2) \<and>
    getter g k w2 = (Inl err, w3) \<longrightarrow>
      load g k w = Some ((ByteView [], Some err), g, w3)) \<and>
   (getter g k w = (Inl err, w') \<longrightarrow>
      getLocally g k w = Some ((ByteView [], Some err), g, w')) \<and>
   (k \<noteq> '''' \<and> cache_get (mainCache g) k = (None, c) \<and> peers g = None \<and>
    getter g k w = (Inl err, w') \<longrightarrow>
      Group_Get g k w = Some ((ByteView [], Some err), g\<lparr>mainCache := c\<rparr>, w'))"
proof -
  have c1: "peers g = Some pp \<and> pp k w = (Some peer, w1) \<and>
      peer (name g) k w1 = (Inl perr, w2) \<longrightarrow> load g k w = getLocally g k w2"
  proof
    assume "peers g = Some pp \<and> pp k w = (Some peer, w1) \<and>
      peer (name g) k w1 = (Inl perr, w2)"
    then have "peers g = Some pp" "pp k w = (Some peer, w1)"
      "peer (name g) k w1 = (Inl perr, w2)" by simp_all
    then show "load g k w = getLocally g k w2" by (rule load_peer_err)
  qed
  have c2: "peers g = Some pp \<and> pp k w = (None, w1) \<longrightarrow> load g k w = getLocally g k w1"
  proof
    assume "peers g = Some pp \<and> pp k w = (None, w1)"
    then have "peers g = Some pp" "pp k w = (None, w1)" by simp_all
    then show "load g k w = getLocally g k w1" by (rule load_no_peer)
  qed
  have c3: "peers g = None \<longrightarrow> load g k w = getLocally g k w"
    using load_no_picker [of g k w] by (rule impI)
  have c4: "peers g = Some pp \<and> pp k w = (Some peer, w1) \<and>
      peer (name g) k w1 = (Inl perr, w2) \<and> getter g k w2 = (Inr bytes, w3) \<longrightarrow>
      (\<forall>r. load g k w = Some r \<longrightarrow> fst r = (ByteView bytes, None) \<and> snd (snd r) = w3)"
  proof (rule impI, rule allI, rule impI)
    fix r
    assume a: "peers g = Some pp \<and> pp k w = (Some peer, w1) \<and>
      peer (name g) k w1 = (Inl perr, w2) \<and> getter g k w2 = (Inr bytes, w3)"
      and r: "load g k w = Some r"
    from a have p: "peers g = Some pp" "pp k w = (Some peer, w1)"
      "peer (name g) k w1 = (Inl perr, w2)" and gt: "getter g k w2 = (Inr bytes, w3)"
      by simp_all
    from load_peer_err [OF p] r have "getLocally g k w2 = Some r" by simp
    with getLocally_ok [OF gt]
    show "fst r = (ByteView bytes, None) \<and> snd (snd r) = w3"
      by (cases "cache_add (mainCache g) k (ByteView bytes)") auto
  qed
  have c5: "peers g = Some pp \<and> pp k w = (Some peer, w1) \<and>
      peer (name g) k w1 = (Inl perr, w2) \<and> getter g k w2 = (Inl err, w3) \<longrightarrow>
      load g k w = Some ((ByteView [], Some err), g, w3)"
  proof
    assume a: "peers g = Some pp \<and> pp k w = (Some peer, w1) \<and>
      peer (name g) k w1 = (Inl perr, w2) \<and> getter g k w2 = (Inl err, w3)"
    then have p: "peers g = Some pp" "pp k w = (Some peer, w1)"
      "peer (name g) k w1 = (Inl perr, w2)" and gt: "getter g k w2 = (Inl err, w3)"
      by simp_all
    from load_peer_err [OF p] getLocally_err [OF gt]
    show "load g k w = Some ((ByteView [], Some err), g, w3)" by simp
  qed
  have c6: "getter g k w = (Inl err, w') \<longrightarrow>
      getLocally g k w = Some ((ByteView [], Some err), g, w')"
    using getLocally_err [of g k w err w'] by (rule impI)
  have c7: "k \<noteq> '''' \<and> cache_get (mainCache g) k = (None, c) \<and> peers g = None \<and>
      getter g k w = (Inl err, w') \<longrightarrow>
      Group_Get g k w = Some ((ByteView [], Some err), g\<lparr>mainCache := c\<rparr>, w')"
  proof
    assume a: "k \<noteq> '''' \<and> cache_get (mainCache g) k = (None, c) \<and> peers g = None \<and>
      getter g k w = (Inl err, w')"
    then have k: "k \<noteq> ''''" and cg: "cache_get (mainCache g) k = (None, c)"
      and pn: "peers (g\<lparr>mainCache := c\<rparr>) = None"
      and gt: "getter (g\<lparr>mainCache := c\<rparr>) k w = (Inl err, w')"
      by simp_all
    from k cg have "Group_Get g k w = load (g\<lparr>mainCache := c\<rparr>) k w"
      by (simp add: Group_Get_def)
    with load_no_picker [OF pn, of k w] getLocally_err [OF gt]
    show "Group_Get g k w = Some ((ByteView [], Some err), g\<lparr>mainCache := c\<rparr>, w')" by simp
  qed
  show ?thesis
    by (rule conjI [OF c1 conjI [OF c2 conjI [OF c3 conjI [OF c4 conjI [OF c5 conjI [OF c6 c7]]]]]])
qed

theorem load_falls_back_to_loader_witness:
  "load (scores\<lparr>peers := Some (\<lambda>k w. (Some peer_down, w))\<rparr>) ''Tom'' () =
     getLocally (scores\<lparr>peers := Some (\<lambda>k w. (Some peer_down, w))\<rparr>) ''Tom'' () \<and>
   load (scores\<lparr>peers := Some (\<lambda>k w. (Some peer_down, w))\<rparr>) ''unknown'' () =
     Some ((ByteView [], Some (Error ''unknown not exist'')),
           scores\<lparr>peers := Some (\<lambda>k w. (Some peer_down, w))\<rparr>, ())"
proof -
  let ?pp = "\<lambda>(k::string) (w::unit). (Some peer_down, w)"
  let ?g = "scores\<lparr>peers := Some ?pp\<rparr>"
  let ?perr = "Error ''server returned: 500 Internal Server Error''"
  have h1: "peers ?g = Some ?pp \<and> ?pp ''Tom'' () = (Some peer_down, ()) \<and>
            peer_down (name ?g) ''Tom'' () = (Inl ?perr, ())"
    by (simp add: peer_down_def)
  note t1 = load_falls_back_to_loader [where g = ?g and pp = ?pp and k = "''Tom''"
      and w = "()" and peer = peer_down and ?w1.0 = "()" and perr = ?perr and ?w2.0 = "()"
      and ?w3.0 = "()" and w' = "()" and bytes = "''630''"
      and err = "Error ''unknown not exist''" and c = "mainCache scores"]
  from t1 [THEN conjunct1, THEN mp, OF h1]
  have a: "load ?g ''Tom'' () = getLocally ?g ''Tom'' ()" .
  have h2: "peers ?g = Some ?pp \<and> ?pp ''unknown'' () = (Some peer_down, ()) \<and>
            peer_down (name ?g) ''unknown'' () = (Inl ?perr, ()) \<and>
            getter ?g ''unknown'' () = (Inl (Error ''unknown not exist''), ())"
    by (simp add: peer_down_def scores_def db_getter_def db_def)
  note t2 = load_falls_back_to_loader [where g = ?g and pp = ?pp and k = "''unknown''"
      and w = "()" and peer = peer_down and ?w1.0 = "()" and perr = ?perr and ?w2.0 = "()"
      and ?w3.0 = "()" and w' = "()" and bytes = "''630''"
      and err = "Error ''unknown not exist''" and c = "mainCache scores"]
  from t2 [THEN conjunct2, THEN conjunct2, THEN conjunct2, THEN conjunct2, THEN conjunct1,
           THEN mp, OF h2]
  have b: "load ?g ''unknown'' () =
      Some ((ByteView [], Some (Error ''unknown not exist'')), ?g, ())" .
  show ?thesis by (rule conjI [OF a b])
qed

text \<open>
  Claim C8 (input errors), as the code has it. \<open>Get("")\<close> returns the zero byte view and
  the error \<open>key is required\<close>, without touching the cache or the world. \<open>NewGroup\<close> with
  a nil loader does not return: it panics with \<open>nil Getter\<close>, as \<open>RegisterPeers\<close> panics
  on a second registration; with a loader it returns the new group and registers it
  under its name.
\<close>

theorem input_errors:
  "Group_Get g '''' w = Some ((ByteView [], Some (Error ''key is required'')), g, w) \<and>
   NewGroup nm cb None groups = Inl (Panic ''nil Getter'') \<and>
   NewGroup nm cb (Some f) groups =
     Inr (\<lparr>name = nm, getter = f, mainCache = \<lparr>lru = None, cacheBytes = cb\<rparr>, peers = None\<rparr>,
          groups(nm \<mapsto> \<lparr>name = nm, getter = f, mainCache = \<lparr>lru = None, cacheBytes = cb\<rparr>,
                          peers = None\<rparr>)) \<and>
   RegisterPeers (g\<lparr>peers := Some pp\<rparr>) pp' =
     Inl (Panic ''RegisterPeerPicker called more than once'')"
  by (simp add: Group_Get_def NewGroup_def RegisterPeers_def Let_def)

text \<open>
  Claim C8 as stated has \<open>NewGroup\<close> reject a nil loader in a way its caller can recover
  from. The call for the group \<open>scores\<close> with a nil loader panics; it returns nothing,
  neither a group nor an error.
\<close>

theorem input_errors_counterexample:
  "NewGroup ''scores'' 2048 (None :: unit Getter option) Map.empty = Inl (Panic ''nil Getter'') \<and>
   \<not> (\<exists>r. NewGroup ''scores'' 2048 (None :: unit Getter option) Map.empty = Inr r)"
  by (simp add: NewGroup_def)


section \<open>Properties of concurrent calls\<close>

lemma run_stutter:
  assumes "i < length ths" "ths ! i = Returned r"
  shows "run_schedule (replicate n i) (ths, g, w) = Some (ths, g, w)"
proof -
  from assms have same: "ths[i := Returned r] = ths" by (metis list_update_id)
  show ?thesis
    by (induction n) (simp_all add: sched_step_def assms same)
qed

lemma sched_step_at:
  assumes "i < length ths" "thread_step g w (ths ! i) = Some (t, g', w')"
  shows "sched_step i (ths, g, w) = Some (ths[i := t], g', w')"
  using assms by (simp add: sched_step_def)

lemma sched_step_none:
  assumes "i < length ths" "thread_step g w (ths ! i) = None"
  shows "sched_step i (ths, g, w) = None"
  using assms by (simp add: sched_step_def)

lemma run_alone_from_getLocally:
  assumes i: "i < length ths" and at: "ths ! i = At_getLocally k"
  shows "run_schedule (i # i # replicate n i) (ths, g, w) =
           map_option (\<lambda>(r, g', w'). (ths[i := Returned r], g', w')) (getLocally g k w)"
proof -
  obtain r w' where gt: "getter g k w = (r, w')" by (cases "getter g k w")
  show ?thesis
  proof (cases r)
    case (Inl err)
    have s1: "sched_step i (ths, g, w) =
        Some (ths[i := Returned (ByteView [], Some err)], g, w')"
      using i at gt Inl by (simp add: sched_step_def)
    have i': "i < length (ths[i := Returned (ByteView [], Some err)])" using i by simp
    have at': "ths[i := Returned (ByteView [], Some err)] ! i = Returned (ByteView [], Some err)"
      using i by simp
    from run_stutter [OF i' at', of "Suc n" g w']
    have "run_schedule (i # replicate n i) (ths[i := Returned (ByteView [], Some err)], g, w') =
        Some (ths[i := Returned (ByteView [], Some err)], g, w')" by simp
    with s1 gt Inl show ?thesis by (simp add: getLocally_def)
  next
    case (Inr bytes)
    let ?v = "ByteView (cloneBytes bytes)"
    let ?ths1 = "ths[i := At_populateCache k ?v]"
    have s1: "sched_step i (ths, g, w) = Some (?ths1, g, w')"
      using i at gt Inr by (simp add: sched_step_def)
    have i1: "i < length ?ths1" and at1: "?ths1 ! i = At_populateCache k ?v"
      using i by simp_all
    show ?thesis
    proof (cases "populateCache g k ?v")
      case None
      then have "sched_step i (?ths1, g, w') = None"
        using i1 at1 by (simp add: sched_step_def)
      with s1 gt Inr None show ?thesis by (simp add: getLocally_def Let_def)
    next
      case (Some g')
      let ?ths2 = "ths[i := Returned (?v, None)]"
      have s2: "sched_step i (?ths1, g, w') = Some (?ths2, g', w')"
        using i1 at1 Some by (simp add: sched_step_def)
      have i2: "i < length ?ths2" and at2: "?ths2 ! i = Returned (?v, None)"
        using i by simp_all
      from run_stutter [OF i2 at2, of n g' w']
      have "run_schedule (replicate n i) (?ths2, g', w') = Some (?ths2, g', w')" .
      with s1 s2 gt Inr Some show ?thesis by (simp add: getLocally_def Let_def)
    qed
  qed
qed

lemma run_alone_from_load:
  assumes i: "i < length ths" and at: "ths ! i = At_load k"
  shows "run_schedule (replicate 4 i) (ths, g, w) =
           map_option (\<lambda>(r, g', w'). (ths[i := Returned r], g', w')) (load g k w)"
proof -
  have r4: "replicate 4 i = [i, i, i, i]" by (simp add: numeral_eq_Suc)
  have local: "run_schedule [i, i, i] (ths[i := At_getLocally k], g, wa) =
      map_option (\<lambda>(r, g', w'). (ths[i := Returned r], g', w')) (getLocally g k wa)" for wa
    using run_alone_from_getLocally [of i "ths[i := At_getLocally k]" k "Suc 0" g wa] i
    by simp
  have local2: "run_schedule [i, i] (ths[i := At_getLocally k], g, wa) =
      map_option (\<lambda>(r, g', w'). (ths[i := Returned r], g', w')) (getLocally g k wa)" for wa
    using run_alone_from_getLocally [of i "ths[i := At_getLocally k]" k 0 g wa] i
    by simp
  show ?thesis
  proof (cases "peers g")
    case None
    then have "sched_step i (ths, g, w) = Some (ths[i := At_getLocally k], g, w)"
      using i at by (simp add: sched_step_def)
    with local [of w] None show ?thesis by (simp add: r4 load_def)
  next
    case pk: (Some pp)
    obtain p w1 where pw: "pp k w = (p, w1)" by (cases "pp k w")
    show ?thesis
    proof (cases p)
      case None
      then have "sched_step i (ths, g, w) = Some (ths[i := At_getLocally k], g, w1)"
        using i at pk pw by (simp add: sched_step_def)
      with local [of w1] None pk pw show ?thesis by (simp add: r4 load_def)
    next
      case (Some peer)
      let ?ths1 = "ths[i := At_getFromPeer peer k]"
      have s1: "sched_step i (ths, g, w) = Some (?ths1, g, w1)"
        using i at pk pw Some by (simp add: sched_step_def)
      have i1: "i < length ?ths1" and at1: "?ths1 ! i = At_getFromPeer peer k"
        using i by simp_all
      obtain v e w2 where gp: "getFromPeer g peer k w1 = ((v, e), w2)"
        by (cases "getFromPeer g peer k w1") auto
      show ?thesis
      proof (cases e)
        case None
        let ?ths2 = "ths[i := Returned (v, None)]"
        have s2: "sched_step i (?ths1, g, w1) = Some (?ths2, g, w2)"
          using i1 at1 gp None by (simp add: sched_step_def)
        have i2: "i < length ?ths2" and at2: "?ths2 ! i = Returned (v, None)"
          using i by simp_all
        from run_stutter [OF i2 at2, of 2 g w2]
        have "run_schedule [i, i] (?ths2, g, w2) = Some (?ths2, g, w2)"
          by (simp add: numeral_eq_Suc)
        with s1 s2 pk pw Some gp None show ?thesis by (simp add: r4 load_def)
      next
        case (Some err)
        have s2: "sched_step i (?ths1, g, w1) = Some (ths[i := At_getLocally k], g, w2)"
          using i1 at1 gp Some by (simp add: sched_step_def)
        with s1 local2 [of w2] pk pw \<open>p = Some peer\<close> gp Some show ?thesis
          by (simp add: r4 load_def)
      qed
    qed
  qed
qed

lemma run_alone_from_Get:
  "run_schedule (replicate 5 0) ([At_Get k], g, w) =
     map_option (\<lambda>(r, g', w'). ([Returned r], g', w')) (Group_Get g k w)"
proof -
  have r5: "replicate 5 (0::nat) = 0 # replicate 4 0" by (simp add: numeral_eq_Suc)
  show ?thesis
  proof (cases "k = ''''")
    case True
    let ?r = "(ByteView [], Some (Error ''key is required''))"
    have s1: "sched_step 0 ([At_Get k], g, w) = Some ([Returned ?r], g, w)"
      using True by (simp add: sched_step_def)
    from run_stutter [of 0 "[Returned ?r]" ?r 4 g w]
    have "run_schedule (replicate 4 0) ([Returned ?r], g, w) = Some ([Returned ?r], g, w)"
      by simp
    with s1 True show ?thesis by (simp add: r5 Group_Get_def)
  next
    case False
    obtain r c where cg: "cache_get (mainCache g) k = (r, c)"
      by (cases "cache_get (mainCache g) k")
    show ?thesis
    proof (cases r)
      case None
      have s1: "sched_step 0 ([At_Get k], g, w) = Some ([At_load k], g\<lparr>mainCache := c\<rparr>, w)"
        using False cg None by (simp add: sched_step_def)
      from run_alone_from_load [of 0 "[At_load k]" k "g\<lparr>mainCache := c\<rparr>" w]
      have "run_schedule (replicate 4 0) ([At_load k], g\<lparr>mainCache := c\<rparr>, w) =
          map_option (\<lambda>(r, g', w'). ([Returned r], g', w')) (load (g\<lparr>mainCache := c\<rparr>) k w)"
        by simp
      with s1 False cg None show ?thesis by (simp add: r5 Group_Get_def)
    next
      case (Some v)
      have s1: "sched_step 0 ([At_Get k], g, w) =
          Some ([Returned (v, None)], g\<lparr>mainCache := c\<rparr>, w)"
        using False cg Some by (simp add: sched_step_def)
      from run_stutter [of 0 "[Returned (v, None)]" "(v, None)" 4 "g\<lparr>mainCache := c\<rparr>" w]
      have "run_schedule (replicate 4 0) ([Returned (v, None)], g\<lparr>mainCache := c\<rparr>, w) =
          Some ([Returned (v, None)], g\<lparr>mainCache := c\<rparr>, w)"
        by simp
      with s1 False cg Some show ?thesis by (simp add: r5 Group_Get_def)
    qed
  qed
qed

text \<open>
  Claim C1 (duplicate suppression), as the code has it. \<open>Get\<close> on a key that misses the
  cache is \<open>load\<close> of that key, called directly: the group holds no single-flight and
  nothing on the path waits for, or shares the result of, another call. A goroutine
  that has missed runs the whole \<open>load\<close> itself (peer fetch or source loader), whatever
  points the other goroutines have reached, also when one of them is loading the same
  key; and a goroutine running alone from \<open>At_Get\<close> does what \<open>Get\<close> does.
\<close>

theorem Get_runs_its_own_load:
  "(k \<noteq> '''' \<and> cache_get (mainCache g) k = (None, c) \<longrightarrow>
      Group_Get g k w = load (g\<lparr>mainCache := c\<rparr>) k w) \<and>
   (i < length ths \<and> ths ! i = At_load k \<longrightarrow>
      run_schedule (replicate 4 i) (ths, g, w) =
        map_option (\<lambda>(r, g', w'). (ths[i := Returned r], g', w')) (load g k w)) \<and>
   run_schedule (replicate 5 0) ([At_Get k], g, w) =
     map_option (\<lambda>(r, g', w'). ([Returned r], g', w')) (Group_Get g k w)"
proof -
  have c1: "k \<noteq> '''' \<and> cache_get (mainCache g) k = (None, c) \<longrightarrow>
      Group_Get g k w = load (g\<lparr>mainCache := c\<rparr>) k w"
    by (simp add: Group_Get_def)
  have c2: "i < length ths \<and> ths ! i = At_load k \<longrightarrow>
      run_schedule (replicate 4 i) (ths, g, w) =
        map_option (\<lambda>(r, g', w'). (ths[i := Returned r], g', w')) (load g k w)"
  proof
    assume "i < length ths \<and> ths ! i = At_load k"
    then have "i < length ths" "ths ! i = At_load k" by simp_all
    then show "run_schedule (replicate 4 i) (ths, g, w) =
        map_option (\<lambda>(r, g', w'). (ths[i := Returned r], g', w')) (load g k w)"
      by (rule run_alone_from_load)
  qed
  show ?thesis by (rule conjI [OF c1 conjI [OF c2 run_alone_from_Get]])
qed

theorem Get_runs_its_own_load_witness:
  "Suc 0 < length [At_populateCache ''Tom'' (ByteView ''0''), At_load ''Tom''] \<and>
   [At_populateCache ''Tom'' (ByteView ''0''), At_load ''Tom''] ! Suc 0 = At_load ''Tom'' \<and>
   (\<exists>g'. run_schedule (replicate 4 (Suc 0))
           ([At_populateCache ''Tom'' (ByteView ''0''), At_load ''Tom''], counted, Suc 0) =
         Some ([At_populateCache ''Tom'' (ByteView ''0''), Returned (ByteView ''1'', None)],
               g', Suc (Suc 0)))"
proof -
  let ?ths = "[At_populateCache ''Tom'' (ByteView ''0''), At_load ''Tom''] :: nat pc list"
  have h: "Suc 0 < length ?ths \<and> ?ths ! Suc 0 = At_load ''Tom''" by simp
  note t = Get_runs_its_own_load [where ths = ?ths and i = "Suc 0" and k = "''Tom''"
      and g = counted and w = "Suc 0" and c = "mainCache counted"]
  from t [THEN conjunct2, THEN conjunct1, THEN mp, OF h]
  have r: "run_schedule (replicate 4 (Suc 0)) (?ths, counted, Suc 0) =
      map_option (\<lambda>(r, g', w'). (?ths[Suc 0 := Returned r], g', w'))
        (load counted ''Tom'' (Suc 0))" .
  have "\<exists>g'. load counted ''Tom'' (Suc 0) = Some ((ByteView ''1'', None), g', Suc (Suc 0))"
    by (simp add: load_def counted_def getLocally_def counting_getter_def Itoa_nat.simps
        cloneBytes_def populateCache_def cache_add_def lru_New_def lru_Add_def Let_def
        evict.simps ByteView_Len_def)
  then obtain g' where "load counted ''Tom'' (Suc 0) =
      Some ((ByteView ''1'', None), g', Suc (Suc 0))" by (elim exE)
  with r have "run_schedule (replicate 4 (Suc 0)) (?ths, counted, Suc 0) =
      Some ([At_populateCache ''Tom'' (ByteView ''0''), Returned (ByteView ''1'', None)],
            g', Suc (Suc 0))" by simp
  then have "\<exists>g'. run_schedule (replicate 4 (Suc 0)) (?ths, counted, Suc 0) =
      Some ([At_populateCache ''Tom'' (ByteView ''0''), Returned (ByteView ''1'', None)],
            g', Suc (Suc 0))" by (rule exI)
  with h show ?thesis by simp
qed

text \<open>
  Claim C1 as stated has the load run once for concurrent calls that all miss, all
  callers seeing the same result. Two goroutines call \<open>Get("Tom")\<close> on the group over
  the counting loader, with an empty cache: both look the key up and miss, then the
  first runs its load to the end, then the second. The loader has run twice, and the
  callers have received \<open>"0"\<close> and \<open>"1"\<close>.
\<close>

theorem Get_runs_its_own_load_counterexample:
  "\<exists>g'. run_schedule [0, 1, 0, 0, 0, 1, 1, 1]
          ([At_Get ''Tom'', At_Get ''Tom''], counted, 0) =
        Some ([Returned (ByteView ''0'', None), Returned (ByteView ''1'', None)], g', 2)"
  by (simp add: sched_step_def counted_def cache_get_def counting_getter_def Itoa_nat.simps
      cloneBytes_def populateCache_def cache_add_def lru_New_def lru_Add_def Let_def
      evict.simps ByteView_Len_def MoveToFront_def)


end
